theory Spec2Isabelle
  imports Main "HOL-Library.FSet" "HOL-Library.AList"
begin

section \<open>The Threlte context: render gate and disposal bookkeeping\<close>

text \<open>
  The embedding follows \<^verbatim>\<open>createThrelteContext\<close>. The closures created there share
  two pieces of mutable state: the object \<^verbatim>\<open>internalCtx\<close> and the store
  \<^verbatim>\<open>renderMode\<close>. Both are fields of one record that every function takes and
  returns; the record is extensible, so that the rest of the application (the scene,
  whatever the tasks of a stage change) is the \<open>more\<close> part of it.
\<close>

subsection \<open>Data\<close>

text \<open>\<^verbatim>\<open>'always' | 'on-demand' | 'manual'\<close>\<close>

datatype renderMode = Always | OnDemand | Manual

text \<open>
  \<^verbatim>\<open>ThrelteInternalContext\<close>, its data fields. \<^verbatim>\<open>Set<unknown>\<close> is a finite set;
  \<^verbatim>\<open>Map<DisposableThreeObject, number>\<close> is a list of entries in insertion order with
  one entry per key. The counts are JavaScript numbers that only ever hold integers
  (they start at 1 and move by 1), so they are \<open>int\<close>: a negative count is a value
  of the type, and that none is ever stored is a property to prove.
\<close>

record ('u, 'o) internalCtx =
  frameInvalidated :: bool
  advance :: bool
  autoInvalidations :: "'u fset"
  disposableObjects :: "('o \<times> int) list"
  shouldDispose :: bool

record ('u, 'o) threlte =
  renderMode :: renderMode
  internalCtx :: "('u, 'o) internalCtx"

text \<open>The object literal that \<^verbatim>\<open>createThrelteContext\<close> builds when no parent context exists.\<close>

definition initialInternalCtx :: "('u, 'o) internalCtx" where
  "initialInternalCtx =
     \<lparr> frameInvalidated = True, advance = False, autoInvalidations = {||},
       disposableObjects = [], shouldDispose = False \<rparr>"

subsection \<open>Invalidation flags\<close>

text \<open>
  \<^verbatim>\<open>resetFrameInvalidation: () => {
    internalCtx.frameInvalidated = false
    internalCtx.advance = false }\<close>
\<close>

definition resetFrameInvalidation :: "('u, 'o) internalCtx \<Rightarrow> ('u, 'o) internalCtx" where
  "resetFrameInvalidation c = (c\<lparr>frameInvalidated := False\<rparr>)\<lparr>advance := False\<rparr>"

text \<open>
  \<^verbatim>\<open>invalidate: () => { internalCtx.frameInvalidated = true }\<close> and
  \<^verbatim>\<open>advance: () => { internalCtx.advance = true }\<close>. The second shares its name with
  the field it sets, hence the suffix.
\<close>

definition invalidate :: "('u, 'o) internalCtx \<Rightarrow> ('u, 'o) internalCtx" where
  "invalidate c = c\<lparr>frameInvalidated := True\<rparr>"

definition advance_fn :: "('u, 'o) internalCtx \<Rightarrow> ('u, 'o) internalCtx" where
  "advance_fn c = c\<lparr>advance := True\<rparr>"

text \<open>The same two calls on the whole application state.\<close>

definition ctx_invalidate :: "('u, 'o, 'z) threlte_scheme \<Rightarrow> ('u, 'o, 'z) threlte_scheme" where
  "ctx_invalidate w = w\<lparr>internalCtx := invalidate (internalCtx w)\<rparr>"

definition ctx_advance :: "('u, 'o, 'z) threlte_scheme \<Rightarrow> ('u, 'o, 'z) threlte_scheme" where
  "ctx_advance w = w\<lparr>internalCtx := advance_fn (internalCtx w)\<rparr>"

definition ctx_resetFrameInvalidation ::
  "('u, 'o, 'z) threlte_scheme \<Rightarrow> ('u, 'o, 'z) threlte_scheme" where
  "ctx_resetFrameInvalidation w = w\<lparr>internalCtx := resetFrameInvalidation (internalCtx w)\<rparr>"

subsection \<open>The render gate\<close>

text \<open>
  \<^verbatim>\<open>const shouldRender = () => {
    return (
      renderMode.current === 'always' ||
      (renderMode.current === 'on-demand' &&
        (internalCtx.frameInvalidated || internalCtx.autoInvalidations.size > 0)) ||
      (renderMode.current === 'manual' && internalCtx.advance)
    )
  }\<close>
  The body only reads; \<open>shouldRender\<close> is the value it returns and
  \<open>shouldRender_call\<close> the call as a step of the state, which returns the state it
  was given.
\<close>

definition shouldRender :: "('u, 'o, 'z) threlte_scheme \<Rightarrow> bool" where
  "shouldRender w \<longleftrightarrow>
     renderMode w = Always \<or>
     (renderMode w = OnDemand \<and>
        (frameInvalidated (internalCtx w) \<or> fcard (autoInvalidations (internalCtx w)) > 0)) \<or>
     (renderMode w = Manual \<and> advance (internalCtx w))"

definition shouldRender_call ::
  "('u, 'o, 'z) threlte_scheme \<Rightarrow> bool \<times> ('u, 'o, 'z) threlte_scheme" where
  "shouldRender_call w = (shouldRender w, w)"

text \<open>
  The gate of the render stage that \<^verbatim>\<open>createThrelteContext\<close> creates when the options
  bring none:
  \<^verbatim>\<open>callback(_, runTasks) { if (shouldRender()) runTasks() }\<close>.
  \<open>runTasks\<close> is the closure the stage passes in; what it does to the state is not
  known here, so it is any function on states.
\<close>

definition renderStage_callback ::
  "'d \<Rightarrow> (('u, 'o, 'z) threlte_scheme \<Rightarrow> ('u, 'o, 'z) threlte_scheme) \<Rightarrow>
     ('u, 'o, 'z) threlte_scheme \<Rightarrow> ('u, 'o, 'z) threlte_scheme" where
  "renderStage_callback delta runTasks w = (if shouldRender w then runTasks w else w)"

text \<open>
  To count how often the gate runs the tasks, the state is extended by a counter that a
  \<open>runTasks\<close> under observation increments.
\<close>

record ('u, 'o) observed = "('u, 'o) threlte" +
  runTasksCalls :: nat

definition counting ::
  "(('u, 'o) observed \<Rightarrow> ('u, 'o) observed) \<Rightarrow> ('u, 'o) observed \<Rightarrow> ('u, 'o) observed" where
  "counting body w = (body w)\<lparr>runTasksCalls := Suc (runTasksCalls w)\<rparr>"

subsection \<open>Disposal bookkeeping\<close>

text \<open>
  \<^verbatim>\<open>Map.get\<close>, \<^verbatim>\<open>Map.set\<close> and \<^verbatim>\<open>Map.delete\<close> on the entry list: \<open>set\<close>
  overwrites the value of a present key where it stands and appends a new key at the end.
\<close>

definition Map_get :: "('o \<times> int) list \<Rightarrow> 'o \<Rightarrow> int option" where
  "Map_get m obj = map_of m obj"

definition Map_set :: "'o \<Rightarrow> int \<Rightarrow> ('o \<times> int) list \<Rightarrow> ('o \<times> int) list" where
  "Map_set obj v m = AList.update obj v m"

definition Map_delete :: "'o \<Rightarrow> ('o \<times> int) list \<Rightarrow> ('o \<times> int) list" where
  "Map_delete obj m = AList.delete obj m"

text \<open>
  The body of the \<^verbatim>\<open>forEach\<close> in \<^verbatim>\<open>addDisposableObjects\<close>:
  \<^verbatim>\<open>const currentValue = internalCtx.disposableObjects.get(obj)
  if (currentValue) { ...set(obj, currentValue + 1) } else { ...set(obj, 1) }\<close>.
  \<^verbatim>\<open>undefined\<close> and \<^verbatim>\<open>0\<close> are both falsy.
\<close>

definition addDisposableObject :: "'o \<Rightarrow> ('u, 'o) internalCtx \<Rightarrow> ('u, 'o) internalCtx" where
  "addDisposableObject obj c =
     (case Map_get (disposableObjects c) obj of
        Some currentValue \<Rightarrow>
          if currentValue \<noteq> 0
          then c\<lparr>disposableObjects := Map_set obj (currentValue + 1) (disposableObjects c)\<rparr>
          else c\<lparr>disposableObjects := Map_set obj 1 (disposableObjects c)\<rparr>
      | None \<Rightarrow> c\<lparr>disposableObjects := Map_set obj 1 (disposableObjects c)\<rparr>)"

definition addDisposableObjects ::
  "'o list \<Rightarrow> ('u, 'o) internalCtx \<Rightarrow> ('u, 'o) internalCtx" where
  "addDisposableObjects objects c = fold addDisposableObject objects c"

text \<open>
  \<^verbatim>\<open>removeDisposableObjects: (objects) => {
    if (objects.length === 0) return
    objects.forEach((obj) => {
      const currentValue = internalCtx.disposableObjects.get(obj)
      if (currentValue && currentValue > 0) { ...set(obj, currentValue - 1) }
    })
    internalCtx.shouldDispose = true }\<close>
\<close>

definition removeDisposableObject :: "'o \<Rightarrow> ('u, 'o) internalCtx \<Rightarrow> ('u, 'o) internalCtx" where
  "removeDisposableObject obj c =
     (case Map_get (disposableObjects c) obj of
        Some currentValue \<Rightarrow>
          if currentValue \<noteq> 0 \<and> currentValue > 0
          then c\<lparr>disposableObjects := Map_set obj (currentValue - 1) (disposableObjects c)\<rparr>
          else c
      | None \<Rightarrow> c)"

definition removeDisposableObjects ::
  "'o list \<Rightarrow> ('u, 'o) internalCtx \<Rightarrow> ('u, 'o) internalCtx" where
  "removeDisposableObjects objects c =
     (if length objects = 0 then c
      else (fold removeDisposableObject objects c)\<lparr>shouldDispose := True\<rparr>)"

text \<open>
  \<^verbatim>\<open>dispose: async (force = false) => {
    await tick()
    if (!internalCtx.shouldDispose && !force) return
    internalCtx.disposableObjects.forEach((mounted, object) => {
      if (mounted === 0 || force) {
        object?.dispose?.()
        internalCtx.disposableObjects.delete(object)
      }
    })
    internalCtx.shouldDispose = false }\<close>
  Nothing happens before \<^verbatim>\<open>await tick()\<close> and nothing is awaited after it, so the
  rest of the body runs in one piece, on the state it finds when it resumes; \<open>dispose\<close>
  is that piece. The state of a pass over the map is the context together with the list of
  objects whose own \<^verbatim>\<open>dispose\<close> was called, in order. Deleting the entry being visited
  does not disturb the iteration, so the pass visits the entries the map had at its start.
  An object's own \<^verbatim>\<open>dispose\<close> belongs to the rendering library; it is taken to return
  normally and not to call back into the context.
\<close>

definition dispose_entry ::
  "bool \<Rightarrow> 'o \<times> int \<Rightarrow> ('u, 'o) internalCtx \<times> 'o list \<Rightarrow> ('u, 'o) internalCtx \<times> 'o list" where
  "dispose_entry force e s =
     (case e of (object, mounted) \<Rightarrow>
        (case s of (c, disposed) \<Rightarrow>
           if mounted = 0 \<or> force
           then (c\<lparr>disposableObjects := Map_delete object (disposableObjects c)\<rparr>,
                 disposed @ [object])
           else (c, disposed)))"

definition dispose :: "bool \<Rightarrow> ('u, 'o) internalCtx \<Rightarrow> ('u, 'o) internalCtx \<times> 'o list" where
  "dispose force c =
     (if \<not> shouldDispose c \<and> \<not> force then (c, [])
      else (case fold (dispose_entry force) (disposableObjects c) (c, []) of
              (c', disposed) \<Rightarrow> (c'\<lparr>shouldDispose := False\<rparr>, disposed)))"

text \<open>The calls that reach the disposal state, and a run of them from a given context.\<close>

datatype 'o disposal_call =
  AddDisposableObjects "'o list"
| RemoveDisposableObjects "'o list"
| Dispose bool

fun disposal_step :: "'o disposal_call \<Rightarrow> ('u, 'o) internalCtx \<Rightarrow> ('u, 'o) internalCtx" where
  "disposal_step (AddDisposableObjects objects) c = addDisposableObjects objects c"
| "disposal_step (RemoveDisposableObjects objects) c = removeDisposableObjects objects c"
| "disposal_step (Dispose force) c = fst (dispose force c)"

definition disposal_run ::
  "'o disposal_call list \<Rightarrow> ('u, 'o) internalCtx \<Rightarrow> ('u, 'o) internalCtx" where
  "disposal_run calls c = fold disposal_step calls c"

text \<open>
  What the bookkeeping maintains: one entry per object and no negative count
  (\<open>counts_inv\<close>), and besides, while \<open>shouldDispose\<close> is unset, no count of zero
  (\<open>disposal_inv\<close>). \<open>disposed_keys\<close> lists the objects a pass of \<open>dispose\<close> over the
  entries \<open>es\<close> disposes of.
\<close>

definition counts_inv :: "('u, 'o) internalCtx \<Rightarrow> bool" where
  "counts_inv c \<longleftrightarrow>
     distinct (map fst (disposableObjects c)) \<and>
     (\<forall>(obj, n) \<in> set (disposableObjects c). 0 \<le> n)"

definition disposal_inv :: "('u, 'o) internalCtx \<Rightarrow> bool" where
  "disposal_inv c \<longleftrightarrow>
     distinct (map fst (disposableObjects c)) \<and>
     (\<forall>(obj, n) \<in> set (disposableObjects c). 0 \<le> n \<and> (\<not> shouldDispose c \<longrightarrow> n \<noteq> 0))"

definition disposed_keys :: "bool \<Rightarrow> ('o \<times> int) list \<Rightarrow> 'o list" where
  "disposed_keys force es = map fst (filter (\<lambda>(object, mounted). mounted = 0 \<or> force) es)"

section \<open>Dependency resolution\<close>

text \<open>
  \<^verbatim>\<open>createThrelteContext\<close> imports \<^verbatim>\<open>Scheduler\<close>, \<^verbatim>\<open>Stage\<close> and \<^verbatim>\<open>Task\<close> from
  \<^verbatim>\<open>'../frame-scheduling'\<close> and calls \<^verbatim>\<open>createStage\<close> and \<^verbatim>\<open>createTask\<close>, but that
  module is not among the sources. The order resolution that a stage runs over its tasks
  and a scheduler over its stages is therefore written down from the specification
  (sections 3, 4.1 and 7), once, over items with a key and two constraint lists.
\<close>

text \<open>
  Modelled from the spec: the item of the frame-scheduling module (a task or a stage) as
  far as ordering goes, "items with a \<^verbatim>\<open>key\<close>, \<^verbatim>\<open>before\<close> set, and \<^verbatim>\<open>after\<close>
  set". A collection of items is a list in registration order.
\<close>

record 'k item =
  key :: 'k
  before :: "'k list"
  after :: "'k list"

text \<open>
  Modelled from the spec: the error kinds of the frame-scheduling module that its
  operations return, \<^verbatim>\<open>DuplicateKey\<close> and \<^verbatim>\<open>CyclicDependency\<close> "identifying at least
  one key participating in the cycle".
\<close>

datatype 'k error = DuplicateKey 'k | CyclicDependency 'k

text \<open>
  Modelled from the spec: the graph of the frame-scheduling module's order resolution,
  "an edge B\<rightarrow>A exists for `A after B' and an edge A\<rightarrow>B exists for `A before B'"; a
  constraint that names a key not in the collection "is treated as a no-op constraint".
\<close>

definition edge :: "'k item list \<Rightarrow> 'k \<Rightarrow> 'k \<Rightarrow> bool" where
  "edge its u v \<longleftrightarrow>
     (\<exists>a \<in> set its. \<exists>b \<in> set its.
        key a = u \<and> key b = v \<and> (u \<in> set (after b) \<or> v \<in> set (before a)))"

definition edges :: "'k item list \<Rightarrow> ('k \<times> 'k) set" where
  "edges its = {(u, v). edge its u v}"

text \<open>
  Modelled from the spec: the selection rule of the frame-scheduling module's "Kahn-style
  topological sort" with stable tie-breaking. A key is ready when none of the keys still
  to be placed has an edge to it; among the ready keys the first registered goes next.
\<close>

definition ready :: "'k item list \<Rightarrow> 'k list \<Rightarrow> 'k \<Rightarrow> bool" where
  "ready its rem v \<longleftrightarrow> (\<forall>u \<in> set rem. \<not> edge its u v)"

text \<open>
  Modelled from the spec: how the frame-scheduling module's \<^verbatim>\<open>CyclicDependency\<close> error
  finds "at least one key participating in the cycle". When no key of \<open>rem\<close> is ready,
  each has a predecessor in \<open>rem\<close>; stepping back to the first such predecessor as many
  times as \<open>rem\<close> has keys ends on a cycle.
\<close>

definition step_back :: "'k item list \<Rightarrow> 'k list \<Rightarrow> 'k \<Rightarrow> 'k" where
  "step_back its rem v = (case find (\<lambda>u. edge its u v) rem of None \<Rightarrow> v | Some u \<Rightarrow> u)"

definition cycle_key :: "'k item list \<Rightarrow> 'k list \<Rightarrow> 'k \<Rightarrow> 'k" where
  "cycle_key its rem v = (step_back its rem ^^ length rem) v"

text \<open>
  Modelled from the spec: the order resolution of the frame-scheduling module ("produce a
  sequence containing every item exactly once", "if the graph contains a cycle,
  resolution fails with a \<^verbatim>\<open>CyclicDependency\<close> error"). \<open>rem\<close> holds the keys still to
  be placed, in registration order.
\<close>

function kahn :: "'k item list \<Rightarrow> 'k list \<Rightarrow> 'k error + 'k list" where
  "kahn its [] = Inr []"
| "kahn its (r # rem) =
     (case find (ready its (r # rem)) (r # rem) of
        None \<Rightarrow> Inl (CyclicDependency (cycle_key its (r # rem) r))
      | Some v \<Rightarrow>
          (case kahn its (remove1 v (r # rem)) of
             Inl e \<Rightarrow> Inl e
           | Inr ord \<Rightarrow> Inr (v # ord)))"
  by pat_completeness auto
termination
proof (relation "measure (\<lambda>(its, rem). length rem)")
  show "wf (measure (\<lambda>(its, rem). length rem))" by simp
next
  fix its :: "'k item list" and r rem v
  assume "find (ready its (r # rem)) (r # rem) = Some v"
  moreover have "find P xs = Some v \<Longrightarrow> v \<in> set xs" for P and xs :: "'k list"
    by (induction xs) (auto split: if_splits)
  ultimately have "v \<in> set (r # rem)"
    by blast
  then have "length (remove1 v (r # rem)) < length (r # rem)"
    by (cases "v = r") (auto simp: length_remove1 dest: length_pos_if_in_set)
  then show "((its, remove1 v (r # rem)), (its, r # rem)) \<in> measure (\<lambda>(its, rem). length rem)"
    by simp
qed

declare kahn.simps(2) [simp del]

definition resolve :: "'k item list \<Rightarrow> 'k error + 'k list" where
  "resolve its = kahn its (map key its)"

text \<open>
  Modelled from the spec: the owner of a collection in the frame-scheduling module (a
  stage for its tasks, the scheduler for its stages): the items, the "cached total order"
  and the "dirty flag that forces recomputation".
\<close>

record 'k dag =
  items :: "'k item list"
  cachedOrder :: "'k list"
  dirty :: bool

text \<open>
  Modelled from the spec: registration and removal in the frame-scheduling module
  (\<^verbatim>\<open>createTask\<close>, \<^verbatim>\<open>createStage\<close>, \<^verbatim>\<open>remove\<close>, \<^verbatim>\<open>removeStage\<close>). Registration
  "fails with \<^verbatim>\<open>DuplicateKey\<close> if \<^verbatim>\<open>key\<close> already exists"; both mark the order dirty;
  removing a key that is not there changes no item.
\<close>

definition create_item :: "'k \<Rightarrow> 'k list \<Rightarrow> 'k list \<Rightarrow> 'k dag \<Rightarrow> 'k error + 'k dag" where
  "create_item k bf af d =
     (if k \<in> set (map key (items d)) then Inl (DuplicateKey k)
      else Inr (d\<lparr>items := items d @ [\<lparr>key = k, before = bf, after = af\<rparr>], dirty := True\<rparr>))"

definition remove_item :: "'k \<Rightarrow> 'k dag \<Rightarrow> 'k dag" where
  "remove_item k d = d\<lparr>items := filter (\<lambda>i. key i \<noteq> k) (items d), dirty := True\<rparr>"

text \<open>
  Modelled from the spec: the "query resolved order" operation of the frame-scheduling
  module, with its recomputation policy ("recompute only when the cache is marked dirty")
  and its failure rule ("the previous valid cached order is retained").
\<close>

definition resolvedOrder :: "'k dag \<Rightarrow> ('k error + 'k list) \<times> 'k dag" where
  "resolvedOrder d =
     (if dirty d
      then (case resolve (items d) of
              Inl e \<Rightarrow> (Inl e, d)
            | Inr ord \<Rightarrow> (Inr ord, d\<lparr>cachedOrder := ord, dirty := False\<rparr>))
      else (Inr (cachedOrder d), d))"

text \<open>
  Modelled from the spec: an owner of the frame-scheduling module with nothing registered
  yet, and several registrations in a row, stopping at the first that is rejected.
\<close>

definition empty_dag :: "'k dag" where
  "empty_dag = \<lparr>items = [], cachedOrder = [], dirty = False\<rparr>"

fun create_items :: "('k \<times> 'k list \<times> 'k list) list \<Rightarrow> 'k dag \<Rightarrow> 'k error + 'k dag" where
  "create_items [] d = Inr d"
| "create_items ((k, bf, af) # rest) d =
     (case create_item k bf af d of Inl e \<Rightarrow> Inl e | Inr d' \<Rightarrow> create_items rest d')"

text \<open>
  An unconstrained item, as in "registration-order-stable position among unconstrained
  items" (spec, section 8): the item with key \<open>x\<close> declares no constraint, and no item of
  the collection names \<open>x\<close> in one.
\<close>

definition unconstrained :: "'k item list \<Rightarrow> 'k \<Rightarrow> bool" where
  "unconstrained its x \<longleftrightarrow>
     (\<forall>a \<in> set its. (key a = x \<longrightarrow> before a = [] \<and> after a = [])
                    \<and> x \<notin> set (before a) \<and> x \<notin> set (after a))"

text \<open>The edges between the keys of \<open>rem\<close>.\<close>

definition edges_on :: "'k item list \<Rightarrow> 'k list \<Rightarrow> ('k \<times> 'k) set" where
  "edges_on its rem = {(u, v). edge its u v \<and> u \<in> set rem \<and> v \<in> set rem}"

text \<open>\<open>precedes u v xs\<close>: \<open>u\<close> stands in \<open>xs\<close>, and \<open>v\<close> somewhere after its first occurrence.\<close>

fun precedes :: "'k \<Rightarrow> 'k \<Rightarrow> 'k list \<Rightarrow> bool" where
  "precedes u v [] \<longleftrightarrow> False"
| "precedes u v (x # xs) \<longleftrightarrow> (if x = u then v \<in> set xs else precedes u v xs)"

section \<open>Properties of the render gate\<close>

lemma fcard_pos_iff: "0 < fcard A \<longleftrightarrow> A \<noteq> {||}"
  using fcard_0_eq [of A] by linarith

text \<open>
  Claim C1. For every state of the shared flags, \<open>shouldRender\<close> is true exactly when
  the render mode is \<open>always\<close>, or it is \<open>on-demand\<close> and the frame is invalidated or
  the set of automatic invalidations is not empty, or it is \<open>manual\<close> and the advance
  flag is set.
\<close>

theorem shouldRender_iff:
  "shouldRender w \<longleftrightarrow>
     renderMode w = Always \<or>
     (renderMode w = OnDemand \<and>
        (frameInvalidated (internalCtx w) \<or> autoInvalidations (internalCtx w) \<noteq> {||})) \<or>
     (renderMode w = Manual \<and> advance (internalCtx w))"
  unfolding shouldRender_def by (simp add: fcard_pos_iff)

theorem shouldRender_iff_witness:
  "shouldRender \<lparr> renderMode = OnDemand,
       internalCtx = (initialInternalCtx :: (unit, nat) internalCtx)
                       \<lparr>frameInvalidated := False, autoInvalidations := {|()|}\<rparr> \<rparr>
   \<and> \<not> shouldRender \<lparr> renderMode = Manual,
       internalCtx = (initialInternalCtx :: (unit, nat) internalCtx) \<rparr>"
  using shouldRender_iff [of "\<lparr> renderMode = OnDemand,
       internalCtx = (initialInternalCtx :: (unit, nat) internalCtx)
                       \<lparr>frameInvalidated := False, autoInvalidations := {|()|}\<rparr> \<rparr>"]
    shouldRender_iff [of "\<lparr> renderMode = Manual,
       internalCtx = (initialInternalCtx :: (unit, nat) internalCtx) \<rparr>"]
  by (simp add: initialInternalCtx_def)

text \<open>
  Claim C2. The gate of the render stage runs \<open>runTasks\<close> exactly once when
  \<open>shouldRender\<close> holds and not at all otherwise: its result is what \<open>runTasks\<close>
  makes of the state, respectively the state itself, and a counter that every run of the
  tasks increments goes up by one, respectively stays. In particular in mode \<open>manual\<close>
  with the advance flag unset the tasks are not run, and in mode \<open>always\<close> they are run
  at every call of the gate, whatever the flags.
\<close>

theorem renderStage_callback_runs_once_iff:
  "renderStage_callback delta runTasks w = (if shouldRender w then runTasks w else w)
   \<and> runTasksCalls (renderStage_callback delta (counting body) v)
       = runTasksCalls v + (if shouldRender v then 1 else 0)
   \<and> (renderMode w = Manual \<and> \<not> advance (internalCtx w)
        \<longrightarrow> renderStage_callback delta runTasks w = w)
   \<and> (renderMode v = Manual \<and> \<not> advance (internalCtx v)
        \<longrightarrow> runTasksCalls (renderStage_callback delta (counting body) v) = runTasksCalls v)
   \<and> (renderMode w = Always \<longrightarrow> renderStage_callback delta runTasks w = runTasks w)
   \<and> (renderMode v = Always
        \<longrightarrow> runTasksCalls (renderStage_callback delta (counting body) v) = Suc (runTasksCalls v))"
  by (auto simp: renderStage_callback_def counting_def shouldRender_def fcard_pos_iff)

theorem renderStage_callback_runs_once_iff_witness:
  "runTasksCalls (renderStage_callback () (counting id)
      \<lparr> renderMode = Manual, internalCtx = (initialInternalCtx :: (unit, nat) internalCtx),
        runTasksCalls = 0 \<rparr>) = 0
   \<and> runTasksCalls (renderStage_callback () (counting id)
      \<lparr> renderMode = Always, internalCtx = (initialInternalCtx :: (unit, nat) internalCtx),
        runTasksCalls = 0 \<rparr>) = Suc 0"
proof -
  let ?m = "\<lparr> renderMode = Manual, internalCtx = (initialInternalCtx :: (unit, nat) internalCtx),
        runTasksCalls = 0 \<rparr>"
  let ?a = "\<lparr> renderMode = Always, internalCtx = (initialInternalCtx :: (unit, nat) internalCtx),
        runTasksCalls = 0 \<rparr>"
  have m: "renderMode ?m = Manual \<and> \<not> advance (internalCtx ?m) \<and> runTasksCalls ?m = 0"
    by (simp add: initialInternalCtx_def)
  have a: "renderMode ?a = Always \<and> runTasksCalls ?a = 0"
    by simp
  from m renderStage_callback_runs_once_iff
    [where delta = "()" and body = id and v = ?m and w = ?m and runTasks = id]
  have "runTasksCalls (renderStage_callback () (counting id) ?m) = 0"
    by simp
  moreover from a renderStage_callback_runs_once_iff
    [where delta = "()" and body = id and v = ?a and w = ?a and runTasks = id]
  have "runTasksCalls (renderStage_callback () (counting id) ?a) = Suc 0"
    by simp
  ultimately show ?thesis by blast
qed

text \<open>
  Claim C6. \<open>shouldRender\<close> is deterministic and free of side effects: a call leaves
  the state as it was (so a second call answers as the first did), and its answer is a
  function of the render mode, the two flags and the set of automatic invalidations only:
  two states that agree on these four get the same answer.
\<close>

theorem shouldRender_pure:
  "snd (shouldRender_call w) = w
   \<and> fst (shouldRender_call w) = fst (shouldRender_call (snd (shouldRender_call w)))
   \<and> (renderMode w = renderMode w'
        \<and> frameInvalidated (internalCtx w) = frameInvalidated (internalCtx w')
        \<and> advance (internalCtx w) = advance (internalCtx w')
        \<and> autoInvalidations (internalCtx w) = autoInvalidations (internalCtx w')
        \<longrightarrow> fst (shouldRender_call w) = fst (shouldRender_call w'))"
  by (auto simp: shouldRender_call_def shouldRender_def fcard_pos_iff)

theorem shouldRender_pure_witness:
  "fst (shouldRender_call \<lparr> renderMode = OnDemand,
          internalCtx = (initialInternalCtx :: (unit, nat) internalCtx) \<rparr>)
   = fst (shouldRender_call \<lparr> renderMode = OnDemand,
          internalCtx = (initialInternalCtx :: (unit, nat) internalCtx)
             \<lparr>disposableObjects := [(7, 1)], shouldDispose := True\<rparr> \<rparr>)"
  using shouldRender_pure [where w = "\<lparr> renderMode = OnDemand,
          internalCtx = (initialInternalCtx :: (unit, nat) internalCtx) \<rparr>"
      and w' = "\<lparr> renderMode = OnDemand,
          internalCtx = (initialInternalCtx :: (unit, nat) internalCtx)
             \<lparr>disposableObjects := [(7, 1)], shouldDispose := True\<rparr> \<rparr>",
      THEN conjunct2, THEN conjunct2]
  by simp

subsection \<open>Who writes the flags\<close>

lemma addDisposableObject_flags:
  "frameInvalidated (addDisposableObject obj c) = frameInvalidated c
   \<and> advance (addDisposableObject obj c) = advance c
   \<and> autoInvalidations (addDisposableObject obj c) = autoInvalidations c
   \<and> shouldDispose (addDisposableObject obj c) = shouldDispose c"
  by (simp add: addDisposableObject_def split: option.split)

lemma addDisposableObjects_flags:
  "frameInvalidated (addDisposableObjects objects c) = frameInvalidated c
   \<and> advance (addDisposableObjects objects c) = advance c
   \<and> autoInvalidations (addDisposableObjects objects c) = autoInvalidations c
   \<and> shouldDispose (addDisposableObjects objects c) = shouldDispose c"
  unfolding addDisposableObjects_def
  by (induction objects arbitrary: c) (simp_all add: addDisposableObject_flags)

lemma removeDisposableObject_flags:
  "frameInvalidated (removeDisposableObject obj c) = frameInvalidated c
   \<and> advance (removeDisposableObject obj c) = advance c
   \<and> autoInvalidations (removeDisposableObject obj c) = autoInvalidations c
   \<and> shouldDispose (removeDisposableObject obj c) = shouldDispose c"
  by (simp add: removeDisposableObject_def split: option.split)

lemma fold_removeDisposableObject_flags:
  "frameInvalidated (fold removeDisposableObject objects c) = frameInvalidated c
   \<and> advance (fold removeDisposableObject objects c) = advance c
   \<and> autoInvalidations (fold removeDisposableObject objects c) = autoInvalidations c
   \<and> shouldDispose (fold removeDisposableObject objects c) = shouldDispose c"
  by (induction objects arbitrary: c) (simp_all add: removeDisposableObject_flags)

lemma removeDisposableObjects_flags:
  "frameInvalidated (removeDisposableObjects objects c) = frameInvalidated c
   \<and> advance (removeDisposableObjects objects c) = advance c
   \<and> autoInvalidations (removeDisposableObjects objects c) = autoInvalidations c"
  by (simp add: removeDisposableObjects_def fold_removeDisposableObject_flags)

lemma fold_dispose_entry_flags:
  "frameInvalidated (fst (fold (dispose_entry force) es s)) = frameInvalidated (fst s)
   \<and> advance (fst (fold (dispose_entry force) es s)) = advance (fst s)
   \<and> autoInvalidations (fst (fold (dispose_entry force) es s)) = autoInvalidations (fst s)"
  by (induction es arbitrary: s) (auto simp: dispose_entry_def split: prod.splits)

lemma dispose_flags:
  "frameInvalidated (fst (dispose force c)) = frameInvalidated c
   \<and> advance (fst (dispose force c)) = advance c
   \<and> autoInvalidations (fst (dispose force c)) = autoInvalidations c"
proof (cases "fold (dispose_entry force) (disposableObjects c) (c, [])")
  case (Pair c' disposed)
  with fold_dispose_entry_flags [of force "disposableObjects c" "(c, [])"]
  show ?thesis
    by (simp add: dispose_def)
qed

text \<open>
  Claim C7. The gate of the render stage never modifies the invalidation flags: its result
  is the state it was given or what \<open>runTasks\<close> made of it, so with tasks that leave
  the flags alone the flags are as before, and the call of \<open>shouldRender\<close> in it changes
  nothing. No other function of the context clears a flag: \<open>invalidate\<close>,
  \<open>advance\<close> and the three disposal functions keep a set flag set. One call of
  \<open>resetFrameInvalidation\<close> sets \<open>frameInvalidated\<close> and \<open>advance\<close> to false and
  leaves every other field of the internal context unchanged.
\<close>

theorem flags_cleared_only_by_resetFrameInvalidation:
  "(renderStage_callback delta runTasks w = w
      \<or> renderStage_callback delta runTasks w = runTasks w)
   \<and> ((\<forall>u. frameInvalidated (internalCtx (runTasks u)) = frameInvalidated (internalCtx u)
            \<and> advance (internalCtx (runTasks u)) = advance (internalCtx u)
            \<and> autoInvalidations (internalCtx (runTasks u)) = autoInvalidations (internalCtx u))
        \<longrightarrow> frameInvalidated (internalCtx (renderStage_callback delta runTasks w))
              = frameInvalidated (internalCtx w)
          \<and> advance (internalCtx (renderStage_callback delta runTasks w))
              = advance (internalCtx w)
          \<and> autoInvalidations (internalCtx (renderStage_callback delta runTasks w))
              = autoInvalidations (internalCtx w))
   \<and> internalCtx (snd (shouldRender_call w)) = internalCtx w
   \<and> (\<forall>op \<in> set [invalidate, advance_fn, addDisposableObjects objects,
                   removeDisposableObjects objects, (\<lambda>c. fst (dispose force c))].
        (frameInvalidated c \<longrightarrow> frameInvalidated (op c)) \<and> (advance c \<longrightarrow> advance (op c)))
   \<and> \<not> frameInvalidated (resetFrameInvalidation c)
   \<and> \<not> advance (resetFrameInvalidation c)
   \<and> autoInvalidations (resetFrameInvalidation c) = autoInvalidations c
   \<and> disposableObjects (resetFrameInvalidation c) = disposableObjects c
   \<and> shouldDispose (resetFrameInvalidation c) = shouldDispose c
   \<and> internalCtx.more (resetFrameInvalidation c) = internalCtx.more c"
proof -
  have gate: "renderStage_callback delta runTasks w = w
      \<or> renderStage_callback delta runTasks w = runTasks w"
    by (simp add: renderStage_callback_def)
  have keeps: "(\<forall>u. frameInvalidated (internalCtx (runTasks u)) = frameInvalidated (internalCtx u)
            \<and> advance (internalCtx (runTasks u)) = advance (internalCtx u)
            \<and> autoInvalidations (internalCtx (runTasks u)) = autoInvalidations (internalCtx u))
        \<longrightarrow> frameInvalidated (internalCtx (renderStage_callback delta runTasks w))
              = frameInvalidated (internalCtx w)
          \<and> advance (internalCtx (renderStage_callback delta runTasks w))
              = advance (internalCtx w)
          \<and> autoInvalidations (internalCtx (renderStage_callback delta runTasks w))
              = autoInvalidations (internalCtx w)"
    by (simp add: renderStage_callback_def)
  have reads: "internalCtx (snd (shouldRender_call w)) = internalCtx w"
    by (simp add: shouldRender_call_def)
  have ops: "\<forall>op \<in> set [invalidate, advance_fn, addDisposableObjects objects,
                   removeDisposableObjects objects, (\<lambda>c. fst (dispose force c))].
        (frameInvalidated c \<longrightarrow> frameInvalidated (op c)) \<and> (advance c \<longrightarrow> advance (op c))"
    by (simp add: invalidate_def advance_fn_def addDisposableObjects_flags
        removeDisposableObjects_flags dispose_flags)
  have reset: "\<not> frameInvalidated (resetFrameInvalidation c)
   \<and> \<not> advance (resetFrameInvalidation c)
   \<and> autoInvalidations (resetFrameInvalidation c) = autoInvalidations c
   \<and> disposableObjects (resetFrameInvalidation c) = disposableObjects c
   \<and> shouldDispose (resetFrameInvalidation c) = shouldDispose c
   \<and> internalCtx.more (resetFrameInvalidation c) = internalCtx.more c"
    by (simp add: resetFrameInvalidation_def)
  from gate keeps reads ops reset show ?thesis
    by (intro conjI) blast+
qed

theorem flags_cleared_only_by_resetFrameInvalidation_witness:
  "frameInvalidated (internalCtx (renderStage_callback ()
       (\<lambda>u. u\<lparr>renderMode := Manual\<rparr>)
       \<lparr> renderMode = Always, internalCtx = (initialInternalCtx :: (unit, nat) internalCtx) \<rparr>))
   \<and> frameInvalidated (removeDisposableObjects [3]
         (initialInternalCtx :: (unit, nat) internalCtx))
   \<and> frameInvalidated (fst (dispose True (initialInternalCtx :: (unit, nat) internalCtx)))"
proof -
  let ?w = "\<lparr> renderMode = Always,
              internalCtx = (initialInternalCtx :: (unit, nat) internalCtx) \<rparr>"
  let ?c = "initialInternalCtx :: (unit, nat) internalCtx"
  let ?f = "\<lambda>u :: (unit, nat) threlte. u\<lparr>renderMode := Manual\<rparr>"
  note inst = flags_cleared_only_by_resetFrameInvalidation
    [where delta = "()" and runTasks = ?f and w = ?w and objects = "[3]" and force = True
       and c = ?c]
  have f: "\<forall>u. frameInvalidated (internalCtx (?f u)) = frameInvalidated (internalCtx u)
            \<and> advance (internalCtx (?f u)) = advance (internalCtx u)
            \<and> autoInvalidations (internalCtx (?f u)) = autoInvalidations (internalCtx u)"
    by simp
  have c: "frameInvalidated ?c" "frameInvalidated (internalCtx ?w)"
    by (simp_all add: initialInternalCtx_def)
  from inst f c(2) have 1: "frameInvalidated (internalCtx (renderStage_callback () ?f ?w))"
    by blast
  from inst have "\<forall>op \<in> set [invalidate, advance_fn, addDisposableObjects [3],
                   removeDisposableObjects [3], (\<lambda>c. fst (dispose True c))].
        (frameInvalidated ?c \<longrightarrow> frameInvalidated (op ?c)) \<and> (advance ?c \<longrightarrow> advance (op ?c))"
    by blast
  with c(1) have "frameInvalidated (removeDisposableObjects [3] ?c)"
    "frameInvalidated (fst (dispose True ?c))"
    by simp_all
  with 1 show ?thesis by blast
qed

text \<open>
  Claim C8. \<open>resetFrameInvalidation\<close> leaves the set of automatic invalidations
  unchanged, so in mode \<open>on-demand\<close> a non-empty set still makes \<open>shouldRender\<close>
  true right after the reset.
\<close>

theorem autoInvalidations_survive_reset:
  "autoInvalidations (resetFrameInvalidation c) = autoInvalidations c
   \<and> (renderMode w = OnDemand \<and> autoInvalidations (internalCtx w) \<noteq> {||}
        \<longrightarrow> shouldRender (ctx_resetFrameInvalidation w))"
proof -
  have "autoInvalidations (internalCtx w) \<noteq> {||}
          \<Longrightarrow> 0 < fcard (autoInvalidations (internalCtx w))"
    using fcard_0_eq [of "autoInvalidations (internalCtx w)"] by linarith
  then show ?thesis
    by (auto simp: shouldRender_def ctx_resetFrameInvalidation_def resetFrameInvalidation_def)
qed

theorem autoInvalidations_survive_reset_witness:
  "shouldRender (ctx_resetFrameInvalidation \<lparr> renderMode = OnDemand,
       internalCtx = (initialInternalCtx :: (unit, nat) internalCtx)
                        \<lparr>autoInvalidations := {|()|}\<rparr> \<rparr>)"
proof -
  let ?w = "\<lparr> renderMode = OnDemand,
       internalCtx = (initialInternalCtx :: (unit, nat) internalCtx)
                        \<lparr>autoInvalidations := {|()|}\<rparr> \<rparr>"
  have "renderMode ?w = OnDemand \<and> autoInvalidations (internalCtx ?w) \<noteq> {||}"
    by simp
  with autoInvalidations_survive_reset [where w = ?w and c = "internalCtx ?w"] show ?thesis
    by blast
qed

text \<open>
  Claim C9. \<open>invalidate\<close> and \<open>advance\<close> are isolated by mode: from a state where
  \<open>shouldRender\<close> is false, \<open>invalidate\<close> alone does not make it true in mode
  \<open>manual\<close>, and \<open>advance\<close> alone does not make it true in mode \<open>on-demand\<close>.
  Each of the two sets its own flag to true and changes nothing else: the state after
  \<open>invalidate\<close> is the state before with \<open>frameInvalidated\<close> set, the state after
  \<open>advance\<close> the state before with \<open>advance\<close> set. The flag each sets is the one its
  own mode reads: after \<open>invalidate\<close> \<open>shouldRender\<close> holds in mode \<open>on-demand\<close>, after
  \<open>advance\<close> in mode \<open>manual\<close>.
\<close>

theorem invalidate_advance_mode_isolated:
  "(renderMode w = Manual \<and> \<not> shouldRender w \<longrightarrow> \<not> shouldRender (ctx_invalidate w))
   \<and> (renderMode w = OnDemand \<and> \<not> shouldRender w \<longrightarrow> \<not> shouldRender (ctx_advance w))
   \<and> ctx_invalidate w = w\<lparr>internalCtx := (internalCtx w)\<lparr>frameInvalidated := True\<rparr>\<rparr>
   \<and> ctx_advance w = w\<lparr>internalCtx := (internalCtx w)\<lparr>advance := True\<rparr>\<rparr>
   \<and> frameInvalidated (internalCtx (ctx_invalidate w))
   \<and> advance (internalCtx (ctx_invalidate w)) = advance (internalCtx w)
   \<and> advance (internalCtx (ctx_advance w))
   \<and> frameInvalidated (internalCtx (ctx_advance w)) = frameInvalidated (internalCtx w)
   \<and> (renderMode w = OnDemand \<longrightarrow> shouldRender (ctx_invalidate w))
   \<and> (renderMode w = Manual \<longrightarrow> shouldRender (ctx_advance w))
   \<and> renderMode (ctx_invalidate w) = renderMode w
   \<and> renderMode (ctx_advance w) = renderMode w
   \<and> invalidate c = c\<lparr>frameInvalidated := True\<rparr>
   \<and> frameInvalidated (invalidate c) \<and> advance (invalidate c) = advance c
   \<and> advance_fn c = c\<lparr>advance := True\<rparr>
   \<and> advance (advance_fn c) \<and> frameInvalidated (advance_fn c) = frameInvalidated c"
proof -
  have iso: "renderMode w = Manual \<and> \<not> shouldRender w \<longrightarrow> \<not> shouldRender (ctx_invalidate w)"
    "renderMode w = OnDemand \<and> \<not> shouldRender w \<longrightarrow> \<not> shouldRender (ctx_advance w)"
    by (auto simp: shouldRender_def ctx_invalidate_def ctx_advance_def invalidate_def
        advance_fn_def)
  have eq: "ctx_invalidate w = w\<lparr>internalCtx := (internalCtx w)\<lparr>frameInvalidated := True\<rparr>\<rparr>"
    "ctx_advance w = w\<lparr>internalCtx := (internalCtx w)\<lparr>advance := True\<rparr>\<rparr>"
    by (simp_all add: ctx_invalidate_def ctx_advance_def invalidate_def advance_fn_def)
  have flags: "frameInvalidated (internalCtx (ctx_invalidate w))"
    "advance (internalCtx (ctx_invalidate w)) = advance (internalCtx w)"
    "advance (internalCtx (ctx_advance w))"
    "frameInvalidated (internalCtx (ctx_advance w)) = frameInvalidated (internalCtx w)"
    by (simp_all add: eq)
  have own: "renderMode w = OnDemand \<longrightarrow> shouldRender (ctx_invalidate w)"
    "renderMode w = Manual \<longrightarrow> shouldRender (ctx_advance w)"
    by (simp_all add: eq shouldRender_def)
  have mode: "renderMode (ctx_invalidate w) = renderMode w"
    "renderMode (ctx_advance w) = renderMode w"
    by (simp_all add: eq)
  have inner: "invalidate c = c\<lparr>frameInvalidated := True\<rparr>"
    "frameInvalidated (invalidate c)" "advance (invalidate c) = advance c"
    "advance_fn c = c\<lparr>advance := True\<rparr>"
    "advance (advance_fn c)" "frameInvalidated (advance_fn c) = frameInvalidated c"
    by (simp_all add: invalidate_def advance_fn_def)
  from iso eq flags own mode inner show ?thesis
    by (intro conjI) (assumption+)
qed

theorem invalidate_advance_mode_isolated_witness:
  "\<not> frameInvalidated (internalCtx \<lparr> renderMode = Manual,
       internalCtx = (initialInternalCtx :: (unit, nat) internalCtx)
                        \<lparr>frameInvalidated := False\<rparr> \<rparr>)
   \<and> frameInvalidated (internalCtx (ctx_invalidate \<lparr> renderMode = Manual,
       internalCtx = (initialInternalCtx :: (unit, nat) internalCtx)
                        \<lparr>frameInvalidated := False\<rparr> \<rparr>))
   \<and> \<not> shouldRender (ctx_invalidate \<lparr> renderMode = Manual,
       internalCtx = (initialInternalCtx :: (unit, nat) internalCtx)
                        \<lparr>frameInvalidated := False\<rparr> \<rparr>)
   \<and> \<not> advance (internalCtx \<lparr> renderMode = OnDemand,
       internalCtx = (initialInternalCtx :: (unit, nat) internalCtx)
                        \<lparr>frameInvalidated := False\<rparr> \<rparr>)
   \<and> advance (internalCtx (ctx_advance \<lparr> renderMode = OnDemand,
       internalCtx = (initialInternalCtx :: (unit, nat) internalCtx)
                        \<lparr>frameInvalidated := False\<rparr> \<rparr>))
   \<and> \<not> shouldRender (ctx_advance \<lparr> renderMode = OnDemand,
       internalCtx = (initialInternalCtx :: (unit, nat) internalCtx)
                        \<lparr>frameInvalidated := False\<rparr> \<rparr>)
   \<and> shouldRender (ctx_invalidate \<lparr> renderMode = OnDemand,
       internalCtx = (initialInternalCtx :: (unit, nat) internalCtx)
                        \<lparr>frameInvalidated := False\<rparr> \<rparr>)"
proof -
  let ?m = "\<lparr> renderMode = Manual,
       internalCtx = (initialInternalCtx :: (unit, nat) internalCtx)
                        \<lparr>frameInvalidated := False\<rparr> \<rparr>"
  let ?d = "\<lparr> renderMode = OnDemand,
       internalCtx = (initialInternalCtx :: (unit, nat) internalCtx)
                        \<lparr>frameInvalidated := False\<rparr> \<rparr>"
  have m: "renderMode ?m = Manual \<and> \<not> shouldRender ?m"
    by (simp add: shouldRender_def initialInternalCtx_def)
  have d: "renderMode ?d = OnDemand \<and> \<not> shouldRender ?d"
    by (simp add: shouldRender_def initialInternalCtx_def fcard_fempty)
  have before: "\<not> frameInvalidated (internalCtx ?m)" "\<not> advance (internalCtx ?d)"
    by (simp_all add: initialInternalCtx_def)
  from m invalidate_advance_mode_isolated [where w = ?m and c = "internalCtx ?m"]
  have "frameInvalidated (internalCtx (ctx_invalidate ?m)) \<and> \<not> shouldRender (ctx_invalidate ?m)"
    by blast
  moreover from d invalidate_advance_mode_isolated [where w = ?d and c = "internalCtx ?d"]
  have "advance (internalCtx (ctx_advance ?d)) \<and> \<not> shouldRender (ctx_advance ?d)
      \<and> shouldRender (ctx_invalidate ?d)"
    by blast
  ultimately show ?thesis
    using before by blast
qed


section \<open>Properties of the disposal bookkeeping\<close>

subsection \<open>The invariant\<close>


lemma set_update_cases:
  "e \<in> set (AList.update k v m) \<Longrightarrow> e = (k, v) \<or> e \<in> set m"
  by (induction m) (auto split: if_splits)

lemma Map_get_in_set: "Map_get m k = Some v \<Longrightarrow> (k, v) \<in> set m"
  by (simp add: Map_get_def map_of_SomeD)

lemma addDisposableObject_inv:
  assumes "disposal_inv c"
  shows "disposal_inv (addDisposableObject obj c)"
proof -
  let ?m = "disposableObjects c"
  have pos: "\<And>n. Map_get ?m obj = Some n \<Longrightarrow> 0 \<le> n"
    using assms Map_get_in_set [of ?m obj] by (fastforce simp: disposal_inv_def)
  have "\<exists>v. disposableObjects (addDisposableObject obj c) = Map_set obj v ?m \<and> 0 < v
          \<and> shouldDispose (addDisposableObject obj c) = shouldDispose c"
  proof (cases "Map_get ?m obj")
    case None
    then show ?thesis
      by (intro exI [of _ 1]) (simp add: addDisposableObject_def)
  next
    case (Some n)
    with pos have n: "0 \<le> n" by simp
    show ?thesis
    proof (cases "n = 0")
      case True
      with Some show ?thesis
        by (intro exI [of _ 1]) (simp add: addDisposableObject_def)
    next
      case False
      with Some n show ?thesis
        by (intro exI [of _ "n + 1"]) (simp add: addDisposableObject_def)
    qed
  qed
  then obtain v where v: "disposableObjects (addDisposableObject obj c) = Map_set obj v ?m"
    "0 < v" "shouldDispose (addDisposableObject obj c) = shouldDispose c"
    by blast
  have "distinct (map fst (Map_set obj v ?m))"
    using assms by (simp add: Map_set_def disposal_inv_def distinct_update)
  moreover have "\<forall>(k, n) \<in> set (Map_set obj v ?m). 0 \<le> n \<and> (\<not> shouldDispose c \<longrightarrow> n \<noteq> 0)"
    using assms v(2) set_update_cases [of _ obj v ?m]
    by (fastforce simp: Map_set_def disposal_inv_def)
  ultimately show ?thesis
    using v by (simp add: disposal_inv_def)
qed

lemma addDisposableObjects_inv:
  "disposal_inv c \<Longrightarrow> disposal_inv (addDisposableObjects objects c)"
  unfolding addDisposableObjects_def
  by (induction objects arbitrary: c) (simp_all add: addDisposableObject_inv)


lemma removeDisposableObject_counts:
  assumes "counts_inv c"
  shows "counts_inv (removeDisposableObject obj c)"
proof (cases "\<exists>n. Map_get (disposableObjects c) obj = Some n \<and> 0 < n")
  case True
  then obtain n where n: "Map_get (disposableObjects c) obj = Some n" "0 < n" by blast
  then have eq: "disposableObjects (removeDisposableObject obj c)
      = Map_set obj (n - 1) (disposableObjects c)"
    by (simp add: removeDisposableObject_def)
  have "distinct (map fst (Map_set obj (n - 1) (disposableObjects c)))"
    using assms by (simp add: Map_set_def counts_inv_def distinct_update)
  moreover have "\<forall>(k, j) \<in> set (Map_set obj (n - 1) (disposableObjects c)). 0 \<le> j"
    using assms n(2) set_update_cases [of _ obj "n - 1" "disposableObjects c"]
    by (fastforce simp: Map_set_def counts_inv_def)
  ultimately show ?thesis
    using eq by (simp add: counts_inv_def)
next
  case False
  then have "removeDisposableObject obj c = c"
    by (auto simp: removeDisposableObject_def split: option.split)
  with assms show ?thesis by simp
qed

lemma fold_removeDisposableObject_counts:
  "counts_inv c \<Longrightarrow> counts_inv (fold removeDisposableObject objects c)"
  by (induction objects arbitrary: c) (simp_all add: removeDisposableObject_counts)

lemma disposal_inv_counts: "disposal_inv c \<Longrightarrow> counts_inv c"
  by (auto simp: disposal_inv_def counts_inv_def)

lemma removeDisposableObjects_inv:
  assumes "disposal_inv c"
  shows "disposal_inv (removeDisposableObjects objects c)"
proof (cases "length objects = 0")
  case True
  with assms show ?thesis by (simp add: removeDisposableObjects_def)
next
  case False
  have "counts_inv (fold removeDisposableObject objects c)"
    using assms by (simp add: disposal_inv_counts fold_removeDisposableObject_counts)
  with False show ?thesis
    by (auto simp: removeDisposableObjects_def disposal_inv_def counts_inv_def)
qed

subsection \<open>A pass of \<open>dispose\<close>\<close>


lemma filter_delete_keys:
  "filter (\<lambda>(k, n). k \<notin> set ks) (AList.delete x m) = filter (\<lambda>(k, n). k \<notin> set (x # ks)) m"
  by (induction m) auto

lemma fold_dispose_entry:
  "fold (dispose_entry force) es (c, l)
     = (c\<lparr>disposableObjects :=
            filter (\<lambda>(k, n). k \<notin> set (disposed_keys force es)) (disposableObjects c)\<rparr>,
        l @ disposed_keys force es)"
proof (induction es arbitrary: c l)
  case Nil
  then show ?case by (simp add: disposed_keys_def)
next
  case (Cons e es)
  obtain object mounted where e: "e = (object, mounted)" by (cases e)
  show ?case
  proof (cases "mounted = 0 \<or> force")
    case True
    then have step: "dispose_entry force e (c, l)
        = (c\<lparr>disposableObjects := Map_delete object (disposableObjects c)\<rparr>, l @ [object])"
      by (simp add: dispose_entry_def e)
    have keys: "disposed_keys force (e # es) = object # disposed_keys force es"
      using True by (simp add: disposed_keys_def e)
    show ?thesis
      unfolding fold_Cons comp_apply step Cons.IH keys
      by (simp add: Map_delete_def filter_delete_keys)
  next
    case False
    then have step: "dispose_entry force e (c, l) = (c, l)"
      by (simp add: dispose_entry_def e)
    have keys: "disposed_keys force (e # es) = disposed_keys force es"
      using False by (simp add: disposed_keys_def e)
    show ?thesis
      unfolding fold_Cons comp_apply step Cons.IH keys by simp
  qed
qed

lemma filter_own_keys:
  assumes "distinct (map fst m)"
  shows "filter (\<lambda>(k, n). k \<notin> set (disposed_keys force m)) m
           = filter (\<lambda>(k, n). \<not> (n = 0 \<or> force)) m"
proof (rule filter_cong [OF refl])
  fix x assume x: "x \<in> set m"
  obtain k n where kn: "x = (k, n)" by (cases x)
  have "k \<in> set (disposed_keys force m) \<longleftrightarrow> (n = 0 \<or> force)"
  proof
    assume "k \<in> set (disposed_keys force m)"
    then obtain n' where n': "(k, n') \<in> set m" "n' = 0 \<or> force"
      by (auto simp: disposed_keys_def)
    with assms x kn have "n' = n" by (meson eq_key_imp_eq_value)
    with n' show "n = 0 \<or> force" by simp
  next
    assume "n = 0 \<or> force"
    with x kn show "k \<in> set (disposed_keys force m)"
      by (force simp: disposed_keys_def)
  qed
  then show "(case x of (k, n) \<Rightarrow> k \<notin> set (disposed_keys force m))
           = (case x of (k, n) \<Rightarrow> \<not> (n = 0 \<or> force))"
    by (simp add: kn)
qed

lemma dispose_runs:
  assumes "distinct (map fst (disposableObjects c))" "shouldDispose c \<or> force"
  shows "disposableObjects (fst (dispose force c))
           = filter (\<lambda>(k, n). \<not> (n = 0 \<or> force)) (disposableObjects c)"
    and "\<not> shouldDispose (fst (dispose force c))"
    and "snd (dispose force c) = disposed_keys force (disposableObjects c)"
  using assms filter_own_keys [of "disposableObjects c" force]
  by (auto simp: dispose_def fold_dispose_entry)

lemma dispose_skips:
  "\<not> shouldDispose c \<Longrightarrow> \<not> force \<Longrightarrow> dispose force c = (c, [])"
  by (simp add: dispose_def)

lemma dispose_map:
  assumes "disposal_inv c"
  shows "disposableObjects (fst (dispose force c))
           = (if force then [] else filter (\<lambda>(k, n). n \<noteq> 0) (disposableObjects c))"
proof (cases "shouldDispose c \<or> force")
  case True
  with assms have "disposableObjects (fst (dispose force c))
           = filter (\<lambda>(k, n). \<not> (n = 0 \<or> force)) (disposableObjects c)"
    by (simp add: dispose_runs(1) disposal_inv_def)
  then show ?thesis
    by (cases force) simp_all
next
  case False
  with assms have "filter (\<lambda>(k, n). n \<noteq> 0) (disposableObjects c) = disposableObjects c"
    by (auto simp: disposal_inv_def filter_id_conv)
  with False show ?thesis
    by (simp add: dispose_skips)
qed

lemma dispose_inv:
  assumes "disposal_inv c"
  shows "disposal_inv (fst (dispose force c))"
proof (cases "shouldDispose c \<or> force")
  case True
  with assms have m: "disposableObjects (fst (dispose force c))
           = filter (\<lambda>(k, n). \<not> (n = 0 \<or> force)) (disposableObjects c)"
    by (simp add: dispose_runs(1) disposal_inv_def)
  have "distinct (map fst (filter (\<lambda>(k, n). \<not> (n = 0 \<or> force)) (disposableObjects c)))"
    using assms by (simp add: disposal_inv_def distinct_map_filter)
  with assms m show ?thesis
    by (auto simp: disposal_inv_def)
next
  case False
  with assms show ?thesis by (simp add: dispose_skips)
qed

lemma initialInternalCtx_inv: "disposal_inv initialInternalCtx"
  by (simp add: disposal_inv_def initialInternalCtx_def)

lemma disposal_step_inv: "disposal_inv c \<Longrightarrow> disposal_inv (disposal_step call c)"
  by (cases call) (simp_all add: addDisposableObjects_inv removeDisposableObjects_inv dispose_inv)

lemma disposal_run_inv: "disposal_inv c \<Longrightarrow> disposal_inv (disposal_run calls c)"
  unfolding disposal_run_def
  by (induction calls arbitrary: c) (simp_all add: disposal_step_inv)

subsection \<open>Keys and counts\<close>

lemma Map_get_removeDisposableObject:
  "Map_get (disposableObjects (removeDisposableObject x c)) obj
     = (if obj = x
        then map_option (\<lambda>n. if 0 < n then n - 1 else n) (Map_get (disposableObjects c) x)
        else Map_get (disposableObjects c) obj)"
  by (auto simp: removeDisposableObject_def Map_get_def Map_set_def update_conv'
      split: option.split)

lemma keys_removeDisposableObject:
  "map fst (disposableObjects (removeDisposableObject x c)) = map fst (disposableObjects c)"
proof (cases "Map_get (disposableObjects c) x")
  case None
  then show ?thesis by (simp add: removeDisposableObject_def)
next
  case (Some n)
  then have "x \<in> set (map fst (disposableObjects c))"
    using Map_get_in_set [of "disposableObjects c" x n] by force
  with Some show ?thesis
    by (simp add: removeDisposableObject_def Map_set_def update_keys)
qed

lemma keys_fold_removeDisposableObject:
  "map fst (disposableObjects (fold removeDisposableObject objects c))
     = map fst (disposableObjects c)"
  by (induction objects arbitrary: c) (simp_all add: keys_removeDisposableObject)

lemma keys_removeDisposableObjects:
  "map fst (disposableObjects (removeDisposableObjects objects c))
     = map fst (disposableObjects c)"
  by (simp add: removeDisposableObjects_def keys_fold_removeDisposableObject)

lemma counts_inv_Map_get:
  "counts_inv c \<Longrightarrow> Map_get (disposableObjects c) obj = Some n \<Longrightarrow> 0 \<le> n"
  using Map_get_in_set [of "disposableObjects c" obj n] by (fastforce simp: counts_inv_def)

lemma Map_get_fold_removeDisposableObject:
  "counts_inv c \<Longrightarrow>
   Map_get (disposableObjects (fold removeDisposableObject objects c)) obj
     = map_option (\<lambda>n. max 0 (n - int (count_list objects obj)))
         (Map_get (disposableObjects c) obj)"
proof (induction objects arbitrary: c)
  case Nil
  show ?case
  proof (cases "Map_get (disposableObjects c) obj")
    case None
    then show ?thesis by simp
  next
    case (Some n)
    with Nil counts_inv_Map_get [of c obj n] show ?thesis by simp
  qed
next
  case (Cons x xs)
  have inv: "counts_inv (removeDisposableObject x c)"
    using Cons.prems by (rule removeDisposableObject_counts)
  show ?case
  proof (cases "Map_get (disposableObjects c) obj")
    case None
    then show ?thesis
      by (auto simp: Cons.IH [OF inv] Map_get_removeDisposableObject)
  next
    case (Some n)
    with Cons.prems have n: "0 \<le> n" by (simp add: counts_inv_Map_get)
    have step: "Map_get (disposableObjects (removeDisposableObject x c)) obj
        = Some (if obj = x \<and> 0 < n then n - 1 else n)"
    proof (cases "obj = x")
      case True
      with Some have "Map_get (disposableObjects c) x = Some n" by simp
      with True show ?thesis by (simp add: Map_get_removeDisposableObject)
    next
      case False
      with Some show ?thesis by (simp add: Map_get_removeDisposableObject)
    qed
    have "max 0 ((if obj = x \<and> 0 < n then n - 1 else n) - int (count_list xs obj))
        = max 0 (n - int (count_list (x # xs) obj))"
      using n by (auto simp: max_def)
    then show ?thesis
      by (simp only: fold_Cons comp_apply Cons.IH [OF inv] step Some option.map)
  qed
qed

lemma Map_get_removeDisposableObjects:
  "counts_inv c \<Longrightarrow>
   Map_get (disposableObjects (removeDisposableObjects objects c)) obj
     = map_option (\<lambda>n. max 0 (n - int (count_list objects obj)))
         (Map_get (disposableObjects c) obj)"
  using Map_get_fold_removeDisposableObject [of c "[]" obj]
  by (cases "objects = []")
     (simp_all add: removeDisposableObjects_def Map_get_fold_removeDisposableObject)

lemma keys_addDisposableObject:
  "set (map fst (disposableObjects c))
     \<subseteq> set (map fst (disposableObjects (addDisposableObject x c)))"
  by (auto simp: addDisposableObject_def Map_set_def dom_update split: option.split)

lemma keys_addDisposableObjects:
  "set (map fst (disposableObjects c))
     \<subseteq> set (map fst (disposableObjects (addDisposableObjects objects c)))"
  unfolding addDisposableObjects_def
proof (induction objects arbitrary: c)
  case Nil
  show ?case by simp
next
  case (Cons x xs)
  from keys_addDisposableObject [of c x] Cons [of "addDisposableObject x c"]
  show ?case by auto
qed


text \<open>
  Claim C10. In every state \<open>c\<close> that the internal context reaches from its initial
  value by calls of \<open>addDisposableObjects\<close>, \<open>removeDisposableObjects\<close> and
  \<open>dispose\<close>, every stored count is non-negative, and it stays so after one more call
  of either of the first two. \<open>removeDisposableObjects\<close> keeps the keys of the map as
  they are and each object's count goes down by one per occurrence in the argument, only
  while it is strictly positive. \<open>addDisposableObjects\<close> removes no key. \<open>dispose\<close>
  leaves exactly the entries with a non-zero count, or none if \<open>force\<close> is set.
\<close>

theorem disposal_counts_invariant:
  assumes "c = disposal_run calls initialInternalCtx"
  shows "(\<forall>(obj, n) \<in> set (disposableObjects c). 0 \<le> n)
    \<and> (\<forall>(obj, n) \<in> set (disposableObjects (addDisposableObjects objects c)). 0 \<le> n)
    \<and> (\<forall>(obj, n) \<in> set (disposableObjects (removeDisposableObjects objects c)). 0 \<le> n)
    \<and> map fst (disposableObjects (removeDisposableObjects objects c))
         = map fst (disposableObjects c)
    \<and> (\<forall>obj. Map_get (disposableObjects (removeDisposableObject x c)) obj
         = (if obj = x
            then map_option (\<lambda>n. if 0 < n then n - 1 else n) (Map_get (disposableObjects c) x)
            else Map_get (disposableObjects c) obj))
    \<and> (\<forall>obj. Map_get (disposableObjects (removeDisposableObjects objects c)) obj
         = map_option (\<lambda>n. max 0 (n - int (count_list objects obj)))
             (Map_get (disposableObjects c) obj))
    \<and> set (map fst (disposableObjects c))
         \<subseteq> set (map fst (disposableObjects (addDisposableObjects objects c)))
    \<and> disposableObjects (fst (dispose force c))
         = (if force then [] else filter (\<lambda>(obj, n). n \<noteq> 0) (disposableObjects c))"
proof -
  have inv: "disposal_inv c"
    unfolding assms by (rule disposal_run_inv [OF initialInternalCtx_inv])
  have 1: "\<forall>(obj, n) \<in> set (disposableObjects c). 0 \<le> n"
    using inv by (auto simp: disposal_inv_def)
  have 2: "\<forall>(obj, n) \<in> set (disposableObjects (addDisposableObjects objects c)). 0 \<le> n"
    using addDisposableObjects_inv [OF inv, of objects] by (auto simp: disposal_inv_def)
  have 3: "\<forall>(obj, n) \<in> set (disposableObjects (removeDisposableObjects objects c)). 0 \<le> n"
    using removeDisposableObjects_inv [OF inv, of objects] by (auto simp: disposal_inv_def)
  note 4 = keys_removeDisposableObjects [of objects c]
  have 5: "\<forall>obj. Map_get (disposableObjects (removeDisposableObject x c)) obj
         = (if obj = x
            then map_option (\<lambda>n. if 0 < n then n - 1 else n) (Map_get (disposableObjects c) x)
            else Map_get (disposableObjects c) obj)"
    by (simp add: Map_get_removeDisposableObject)
  have 6: "\<forall>obj. Map_get (disposableObjects (removeDisposableObjects objects c)) obj
         = map_option (\<lambda>n. max 0 (n - int (count_list objects obj)))
             (Map_get (disposableObjects c) obj)"
    using inv by (simp add: Map_get_removeDisposableObjects disposal_inv_counts)
  note 7 = keys_addDisposableObjects [of c objects]
  note 8 = dispose_map [OF inv, of force]
  from 1 2 3 4 5 6 7 8 show ?thesis by blast
qed

theorem disposal_counts_invariant_witness:
  "disposableObjects (fst (dispose False
      (disposal_run [AddDisposableObjects [1, 2, 1], RemoveDisposableObjects [2]]
         (initialInternalCtx :: (unit, int) internalCtx)))) = [(1, 2)]
   \<and> Map_get (disposableObjects (removeDisposableObjects [1, 2, 1, 1]
      (disposal_run [AddDisposableObjects [1, 2, 1], RemoveDisposableObjects [2]]
         (initialInternalCtx :: (unit, int) internalCtx)))) 1 = Some 0"
proof -
  let ?c = "disposal_run [AddDisposableObjects [1, 2, 1], RemoveDisposableObjects [2]]
         (initialInternalCtx :: (unit, int) internalCtx)"
  have m: "disposableObjects ?c = [(1, 2), (2, 0)]"
    by (simp add: disposal_run_def addDisposableObjects_def removeDisposableObjects_def
        addDisposableObject_def removeDisposableObject_def Map_get_def Map_set_def
        initialInternalCtx_def)
  note inst = disposal_counts_invariant [OF refl, where calls
      = "[AddDisposableObjects [1, 2, 1], RemoveDisposableObjects [2]]"
      and objects = "[1, 2, 1, 1]" and force = False and x = 1
      and 'a = unit and 'b = int]
  from inst have "disposableObjects (fst (dispose False ?c))
      = filter (\<lambda>(obj, n). n \<noteq> 0) (disposableObjects ?c)"
    by simp
  moreover from inst
  have "Map_get (disposableObjects (removeDisposableObjects [1, 2, 1, 1] ?c)) 1
      = map_option (\<lambda>n. max 0 (n - int (count_list [1, 2, 1, 1] (1::int))))
          (Map_get (disposableObjects ?c) 1)"
    by blast
  ultimately show ?thesis
    by (simp add: m Map_get_def)
qed


section \<open>Properties of the dependency resolution\<close>

subsection \<open>A successful resolution is a topological order\<close>

lemma find_SomeD: "find P xs = Some x \<Longrightarrow> x \<in> set xs \<and> P x"
  by (induction xs) (auto split: if_splits)

lemma precedes_in_set: "precedes u v xs \<Longrightarrow> u \<in> set xs \<and> v \<in> set xs"
  by (induction xs) (auto split: if_splits)

lemma kahn_Inr_cases:
  assumes "kahn its (r # rem) = Inr ord"
  obtains v ord' where "find (ready its (r # rem)) (r # rem) = Some v"
    and "kahn its (remove1 v (r # rem)) = Inr ord'" and "ord = v # ord'"
  using assms unfolding kahn.simps(2) by (auto split: option.splits sum.splits)

lemma kahn_sound:
  "kahn its rem = Inr ord \<Longrightarrow> distinct rem \<Longrightarrow>
   distinct ord \<and> set ord = set rem \<and>
   (\<forall>u v. u \<in> set rem \<longrightarrow> v \<in> set rem \<longrightarrow> edge its u v \<longrightarrow> precedes u v ord)"
proof (induction its rem arbitrary: ord rule: kahn.induct)
  case (1 its)
  then show ?case by simp
next
  case (2 its r rem)
  from "2.prems"(1) obtain v ord' where
    v: "find (ready its (r # rem)) (r # rem) = Some v"
    and rec: "kahn its (remove1 v (r # rem)) = Inr ord'" and ord: "ord = v # ord'"
    by (rule kahn_Inr_cases)
  from v have v_in: "v \<in> set (r # rem)" and v_ready: "ready its (r # rem) v"
    using find_SomeD [OF v] by blast+
  have dist: "distinct (remove1 v (r # rem))"
    using "2.prems"(2) by (rule distinct_remove1)
  have rest: "set (remove1 v (r # rem)) = set (r # rem) - {v}"
    using "2.prems"(2) by (rule set_remove1_eq)
  from "2.IH" [OF v rec dist] have
    ih: "distinct ord'" "set ord' = set (remove1 v (r # rem))"
      "\<And>u w. u \<in> set (remove1 v (r # rem)) \<Longrightarrow> w \<in> set (remove1 v (r # rem))
         \<Longrightarrow> edge its u w \<Longrightarrow> precedes u w ord'"
    by blast+
  have "distinct ord"
    using ih(1,2) rest by (simp add: ord)
  moreover have "set ord = set (r # rem)"
    using ih(2) rest v_in by (auto simp: ord)
  moreover have "precedes u w ord"
    if "u \<in> set (r # rem)" "w \<in> set (r # rem)" "edge its u w" for u w
  proof -
    from v_ready that(1,3) have "w \<noteq> v"
      by (auto simp: ready_def)
    with that(2) rest have w: "w \<in> set (remove1 v (r # rem))" by simp
    show ?thesis
    proof (cases "u = v")
      case True
      with w ih(2) show ?thesis by (simp add: ord)
    next
      case False
      with that(1) rest have "u \<in> set (remove1 v (r # rem))" by simp
      then have "precedes u w ord'" using w that(3) by (rule ih(3))
      with False show ?thesis by (simp add: ord)
    qed
  qed
  ultimately show ?case by blast
qed

lemma ready_exists:
  assumes "acyclic (edges its)" "rem \<noteq> []"
  shows "\<exists>v \<in> set rem. ready its rem v"
proof -
  define r where "r = {(u, v). edge its u v \<and> u \<in> set rem \<and> v \<in> set rem}"
  have "r \<subseteq> edges its"
    by (auto simp: r_def edges_def)
  with assms(1) have "acyclic r"
    by (rule acyclic_subset)
  moreover have "r \<subseteq> set rem \<times> set rem"
    by (auto simp: r_def)
  then have "finite r"
    by (rule finite_subset) simp
  ultimately have "wf r"
    by (simp add: finite_acyclic_wf)
  moreover from assms(2) have "hd rem \<in> set rem" by simp
  ultimately have "\<exists>z \<in> set rem. \<forall>y. (y, z) \<in> r \<longrightarrow> y \<notin> set rem"
    unfolding wf_eq_minimal by blast
  then obtain z where z: "z \<in> set rem" "\<forall>y. (y, z) \<in> r \<longrightarrow> y \<notin> set rem"
    by blast
  have "ready its rem z"
    unfolding ready_def
  proof
    fix u assume u: "u \<in> set rem"
    show "\<not> edge its u z"
    proof
      assume "edge its u z"
      with u z(1) have "(u, z) \<in> r" by (simp add: r_def)
      with z(2) u show False by blast
    qed
  qed
  with z(1) show ?thesis by blast
qed

lemma kahn_complete:
  "acyclic (edges its) \<Longrightarrow> \<exists>ord. kahn its rem = Inr ord"
proof (induction its rem rule: kahn.induct)
  case (1 its)
  then show ?case by simp
next
  case (2 its r rem)
  have "find (ready its (r # rem)) (r # rem) \<noteq> None"
    using ready_exists [OF "2.prems", of "r # rem"]
    unfolding find_None_iff by blast
  then obtain v where v: "find (ready its (r # rem)) (r # rem) = Some v"
    by blast
  from "2.IH" [OF v "2.prems"] obtain ord' where "kahn its (remove1 v (r # rem)) = Inr ord'"
    by blast
  with v show ?case by (subst kahn.simps(2)) simp
qed

subsection \<open>Cycles\<close>

lemma edge_keys: "edge its u v \<Longrightarrow> u \<in> set (map key its) \<and> v \<in> set (map key its)"
  by (auto simp: edge_def)

lemma precedes_pos:
  "precedes u v xs \<Longrightarrow> distinct xs \<Longrightarrow>
   length (takeWhile (\<lambda>x. x \<noteq> u) xs) < length (takeWhile (\<lambda>x. x \<noteq> v) xs)"
proof (induction xs)
  case Nil
  then show ?case by simp
next
  case (Cons x xs)
  show ?case
  proof (cases "x = u")
    case True
    with Cons.prems have "v \<in> set xs" "u \<notin> set xs" by auto
    then have "v \<noteq> u" by blast
    with True show ?thesis by simp
  next
    case False
    with Cons.prems have p: "precedes u v xs" by simp
    then have "v \<in> set xs" by (simp add: precedes_in_set)
    with Cons.prems(2) have "x \<noteq> v" by auto
    with False p Cons.IH Cons.prems(2) show ?thesis by simp
  qed
qed

lemma kahn_Inr_acyclic:
  assumes "kahn its (map key its) = Inr ord" "distinct (map key its)"
  shows "acyclic (edges its)"
proof -
  let ?pos = "\<lambda>k. length (takeWhile (\<lambda>x. x \<noteq> k) ord)"
  from kahn_sound [OF assms] have ord: "distinct ord"
    "\<And>u v. u \<in> set (map key its) \<Longrightarrow> v \<in> set (map key its) \<Longrightarrow> edge its u v
       \<Longrightarrow> precedes u v ord"
    by blast+
  have "edges its \<subseteq> measure ?pos"
  proof
    fix e assume e: "e \<in> edges its"
    obtain u v where uv: "e = (u, v)" by (cases e)
    with e have "edge its u v" by (simp add: edges_def)
    with edge_keys [of its u v] have "precedes u v ord" by (simp add: ord(2))
    then have "?pos u < ?pos v" using ord(1) by (rule precedes_pos)
    with uv show "e \<in> measure ?pos" by simp
  qed
  with wf_measure have "wf (edges its)" by (rule wf_subset)
  then show ?thesis by (rule wf_acyclic)
qed

lemma kahn_Inl:
  "kahn its rem = Inl e \<Longrightarrow>
   \<exists>r stuck. set (r # stuck) \<subseteq> set rem \<and> (\<forall>v \<in> set (r # stuck). \<not> ready its (r # stuck) v)
      \<and> e = CyclicDependency (cycle_key its (r # stuck) r)"
proof (induction its rem rule: kahn.induct)
  case (1 its)
  then show ?case by simp
next
  case (2 its r rem)
  show ?case
  proof (cases "find (ready its (r # rem)) (r # rem)")
    case None
    then have "\<forall>v \<in> set (r # rem). \<not> ready its (r # rem) v"
      unfolding find_None_iff by blast
    moreover from None "2.prems" have "e = CyclicDependency (cycle_key its (r # rem) r)"
      unfolding kahn.simps(2) by simp
    ultimately show ?thesis by blast
  next
    case (Some v)
    from "2.prems" [unfolded kahn.simps(2) Some option.case]
    have rec: "kahn its (remove1 v (r # rem)) = Inl e"
      by (cases "kahn its (remove1 v (r # rem))") (simp_all del: remove1.simps)
    from "2.IH" [OF Some rec] obtain r' stuck where
      s: "set (r' # stuck) \<subseteq> set (remove1 v (r # rem))"
        "\<forall>v \<in> set (r' # stuck). \<not> ready its (r' # stuck) v"
        "e = CyclicDependency (cycle_key its (r' # stuck) r')"
      by blast
    from s(1) set_remove1_subset [of v "r # rem"] have "set (r' # stuck) \<subseteq> set (r # rem)"
      by blast
    with s(2,3) show ?thesis by blast
  qed
qed

lemma step_back_edge:
  assumes "\<forall>v \<in> set rem. \<not> ready its rem v" "v \<in> set rem"
  shows "step_back its rem v \<in> set rem \<and> edge its (step_back its rem v) v"
proof -
  from assms have "\<exists>u \<in> set rem. edge its u v"
    by (auto simp: ready_def)
  then have "find (\<lambda>u. edge its u v) rem \<noteq> None"
    unfolding find_None_iff by blast
  then obtain u where u: "find (\<lambda>u. edge its u v) rem = Some u" by blast
  from find_SomeD [OF u] u show ?thesis
    by (simp add: step_back_def)
qed

lemma funpow_step_back_in:
  assumes "\<forall>v \<in> set rem. \<not> ready its rem v" "v \<in> set rem"
  shows "(step_back its rem ^^ n) v \<in> set rem"
  using assms by (induction n) (simp_all add: step_back_edge)

lemma funpow_step_back_path:
  assumes "\<forall>v \<in> set rem. \<not> ready its rem v" "v \<in> set rem"
  shows "((step_back its rem ^^ Suc m) v, v) \<in> (edges its)\<^sup>+"
proof (induction m)
  case 0
  from step_back_edge [OF assms] have "(step_back its rem v, v) \<in> edges its"
    by (simp add: edges_def)
  then show ?case by auto
next
  case (Suc m)
  let ?z = "(step_back its rem ^^ Suc m) v"
  have "?z \<in> set rem"
    using assms by (rule funpow_step_back_in)
  with assms(1) have "edge its (step_back its rem ?z) ?z"
    by (simp add: step_back_edge del: funpow.simps)
  then have "(step_back its rem ?z, ?z) \<in> edges its"
    by (simp add: edges_def del: funpow.simps)
  from trancl_into_trancl2 [OF this Suc] show ?case
    by simp
qed

lemma cycle_key_on_cycle:
  assumes stuck: "\<forall>v \<in> set rem. \<not> ready its rem v" and r: "r \<in> set rem"
  shows "(cycle_key its rem r, cycle_key its rem r) \<in> (edges its)\<^sup>+"
proof -
  let ?f = "step_back its rem"
  let ?n = "length rem"
  let ?g = "\<lambda>i. (?f ^^ i) r"
  have "?g ` {0..?n} \<subseteq> set rem"
    using funpow_step_back_in [OF stuck r] by blast
  then have "card (?g ` {0..?n}) \<le> card (set rem)"
    by (simp add: card_mono)
  also have "\<dots> \<le> ?n" by (rule card_length)
  also have "\<dots> < card {0..?n}" by simp
  finally have "\<not> inj_on ?g {0..?n}" by (rule pigeonhole)
  then obtain a b where ab: "a \<le> ?n" "b \<le> ?n" "a \<noteq> b" "?g a = ?g b"
    by (auto simp: inj_on_def)
  define i where "i = min a b"
  define j where "j = max a b"
  from ab have ij: "i < j" "j \<le> ?n" "?g i = ?g j"
    by (auto simp: i_def j_def min_def max_def)
  define m where "m = j - i - 1"
  let ?y = "cycle_key its rem r"
  have y: "?y = ?g ?n" by (simp add: cycle_key_def)
  have "(?f ^^ Suc m) ?y = (?f ^^ (Suc m + ?n)) r"
    unfolding y by (simp only: funpow_add comp_apply)
  also from ij have "Suc m + ?n = (?n - i) + j" by (simp add: m_def)
  also have "(?f ^^ ((?n - i) + j)) r = (?f ^^ (?n - i)) (?g j)"
    by (simp only: funpow_add comp_apply)
  also have "\<dots> = (?f ^^ (?n - i)) (?g i)" by (simp only: ij(3))
  also have "\<dots> = (?f ^^ ((?n - i) + i)) r"
    by (simp only: funpow_add comp_apply)
  also from ij have "(?n - i) + i = ?n" by simp
  finally have loop: "(?f ^^ Suc m) ?y = ?y" by (simp only: y)
  have "?y \<in> set rem"
    unfolding y using stuck r by (rule funpow_step_back_in)
  from funpow_step_back_path [OF stuck this, of m] show ?thesis
    by (simp only: loop)
qed

text \<open>
  Claim C3. For a collection of items with distinct keys whose graph is acyclic, the
  resolution returns a sequence that contains every key exactly once and in which, for
  every constraint between two items of the collection, "A after B" has B before A and
  "A before B" has A before B.
\<close>

theorem resolve_respects_constraints:
  assumes "distinct (map key its)" and "acyclic (edges its)"
  shows "\<exists>ord. resolve its = Inr ord \<and> distinct ord \<and> set ord = set (map key its)
           \<and> length ord = length its
           \<and> (\<forall>a \<in> set its.
                 (\<forall>b \<in> set (after a). b \<in> set (map key its) \<longrightarrow> precedes b (key a) ord) \<and>
                 (\<forall>b \<in> set (before a). b \<in> set (map key its) \<longrightarrow> precedes (key a) b ord))"
proof -
  from kahn_complete [OF assms(2)] obtain ord where ord: "kahn its (map key its) = Inr ord"
    by blast
  from kahn_sound [OF ord assms(1)] have s: "distinct ord" "set ord = set (map key its)"
    "\<And>u v. u \<in> set (map key its) \<Longrightarrow> v \<in> set (map key its) \<Longrightarrow> edge its u v
       \<Longrightarrow> precedes u v ord"
    by blast+
  from s(1,2) assms(1) have "length ord = length (map key its)"
    by (metis distinct_card)
  then have len: "length ord = length its" by simp
  have "precedes b (key a) ord" if "a \<in> set its" "b \<in> set (after a)" "b \<in> set (map key its)"
    for a b
  proof -
    from that(3) obtain i where "i \<in> set its" "key i = b" by auto
    with that(1,2) have "edge its b (key a)"
      unfolding edge_def by blast
    with that(1,3) show ?thesis by (simp add: s(3))
  qed
  moreover
  have "precedes (key a) b ord" if "a \<in> set its" "b \<in> set (before a)" "b \<in> set (map key its)"
    for a b
  proof -
    from that(3) obtain i where "i \<in> set its" "key i = b" by auto
    with that(1,2) have "edge its (key a) b"
      unfolding edge_def by blast
    with that(1,3) show ?thesis by (simp add: s(3))
  qed
  ultimately show ?thesis
    using ord s(1,2) len unfolding resolve_def by blast
qed

theorem resolve_respects_constraints_witness:
  "\<exists>ord. resolve [\<lparr>key = ''second'', before = [], after = [''first'']\<rparr>,
                   \<lparr>key = ''first'', before = [], after = []\<rparr>] = Inr ord
         \<and> precedes ''first'' ''second'' ord"
proof -
  let ?its = "[\<lparr>key = ''second'', before = [], after = [''first'']\<rparr>,
               \<lparr>key = ''first'', before = [], after = []\<rparr>]"
  have d: "distinct (map key ?its)" by simp
  have "edges ?its = {(''first'', ''second'')}"
    by (auto simp: edges_def edge_def)
  moreover have "acyclic {}"
    by (simp add: acyclic_def)
  ultimately have a: "acyclic (edges ?its)"
    by simp
  from resolve_respects_constraints [OF d a] show ?thesis
    by auto
qed


text \<open>
  Claim C4. If the graph has a cycle, the resolution fails with \<open>CyclicDependency k\<close> for
  a key \<open>k\<close> that lies on a cycle, and the query leaves the owner, and so the cached
  order, as it was. The resolution is a total function, so it does not loop.
\<close>

theorem resolve_cycle_fails:
  assumes "distinct (map key (items d))" and "\<not> acyclic (edges (items d))"
  shows "\<exists>k. resolve (items d) = Inl (CyclicDependency k)
           \<and> (k, k) \<in> (edges (items d))\<^sup>+
           \<and> (dirty d \<longrightarrow> resolvedOrder d = (Inl (CyclicDependency k), d))
           \<and> cachedOrder (snd (resolvedOrder d)) = cachedOrder d"
proof -
  let ?its = "items d"
  have "\<exists>e. kahn ?its (map key ?its) = Inl e"
  proof (cases "kahn ?its (map key ?its)")
    case (Inl e)
    then show ?thesis by blast
  next
    case (Inr ord)
    from kahn_Inr_acyclic [OF Inr assms(1)] assms(2) show ?thesis by blast
  qed
  then obtain e where e: "kahn ?its (map key ?its) = Inl e" by blast
  from kahn_Inl [OF e] obtain r stuck where
    s: "\<forall>v \<in> set (r # stuck). \<not> ready ?its (r # stuck) v"
      "e = CyclicDependency (cycle_key ?its (r # stuck) r)"
    by blast
  let ?k = "cycle_key ?its (r # stuck) r"
  have cyc: "(?k, ?k) \<in> (edges ?its)\<^sup>+"
    using s(1) by (rule cycle_key_on_cycle) simp
  have res: "resolve ?its = Inl (CyclicDependency ?k)"
    using e s(2) by (simp add: resolve_def)
  then have "dirty d \<longrightarrow> resolvedOrder d = (Inl (CyclicDependency ?k), d)"
    by (simp add: resolvedOrder_def)
  moreover from res have "cachedOrder (snd (resolvedOrder d)) = cachedOrder d"
    by (simp add: resolvedOrder_def)
  ultimately show ?thesis
    using res cyc by blast
qed

theorem resolve_cycle_fails_witness:
  "\<exists>k. resolvedOrder \<lparr>items = [\<lparr>key = ''A'', before = [], after = [''B'']\<rparr>,
                               \<lparr>key = ''B'', before = [], after = [''A'']\<rparr>],
                      cachedOrder = [''A''], dirty = True\<rparr>
        = (Inl (CyclicDependency k),
           \<lparr>items = [\<lparr>key = ''A'', before = [], after = [''B'']\<rparr>,
                     \<lparr>key = ''B'', before = [], after = [''A'']\<rparr>],
            cachedOrder = [''A''], dirty = True\<rparr>)"
proof -
  let ?its = "[\<lparr>key = ''A'', before = [], after = [''B'']\<rparr>,
               \<lparr>key = ''B'', before = [], after = [''A'']\<rparr>]"
  let ?d = "\<lparr>items = ?its, cachedOrder = [''A''], dirty = True\<rparr>"
  have d: "distinct (map key (items ?d))" by simp
  have "(''A'', ''B'') \<in> edges ?its" "(''B'', ''A'') \<in> edges ?its"
    by (simp_all add: edges_def edge_def)
  then have "(''A'', ''A'') \<in> (edges ?its)\<^sup>+"
    by (meson trancl.intros)
  then have c: "\<not> acyclic (edges (items ?d))"
    by (auto simp: acyclic_def)
  have "dirty ?d" by simp
  with resolve_cycle_fails [OF d c] show ?thesis
    by blast
qed

lemma resolve_cycle_example:
  "resolve [\<lparr>key = ''C'', before = [], after = [''A'']\<rparr>,
            \<lparr>key = ''A'', before = [], after = [''B'']\<rparr>,
            \<lparr>key = ''B'', before = [], after = [''A'']\<rparr>] = Inl (CyclicDependency ''A'')"
  by code_simp


lemma create_item_distinct:
  "distinct (map key (items d)) \<Longrightarrow> create_item k bf af d = Inr d'
     \<Longrightarrow> distinct (map key (items d'))"
  by (auto simp: create_item_def split: if_splits)

lemma remove_item_distinct:
  "distinct (map key (items d)) \<Longrightarrow> distinct (map key (items (remove_item k d)))"
  by (simp add: remove_item_def distinct_map_filter)

subsection \<open>Registration order\<close>

lemma precedes_neq: "precedes x y xs \<Longrightarrow> distinct xs \<Longrightarrow> x \<noteq> y"
  by (induction xs) (auto split: if_splits)

lemma precedes_remove1:
  "precedes x y xs \<Longrightarrow> v \<noteq> x \<Longrightarrow> v \<noteq> y \<Longrightarrow> precedes x y (remove1 v xs)"
  by (induction xs) (auto split: if_splits)

lemma find_is_first:
  "find P xs = Some y \<Longrightarrow> distinct xs \<Longrightarrow> precedes z y xs \<Longrightarrow> \<not> P z"
proof (induction xs)
  case Nil
  then show ?case by simp
next
  case (Cons a xs)
  show ?case
  proof (cases "P a")
    case True
    with Cons.prems(1) have "a = y" by simp
    with Cons.prems(2) have "y \<notin> set xs" by simp
    with Cons.prems(3) \<open>a = y\<close> precedes_in_set [of z y xs] show ?thesis
      by (auto split: if_splits)
  next
    case False
    with Cons.prems(1) have f: "find P xs = Some y" by simp
    show ?thesis
    proof (cases "a = z")
      case True
      with False show ?thesis by simp
    next
      case False
      with Cons.prems(3) have "precedes z y xs" by simp
      with Cons.IH [OF f] Cons.prems(2) show ?thesis by simp
    qed
  qed
qed

lemma edges_on_subset: "edges_on its rem \<subseteq> edges its"
  by (auto simp: edges_on_def edges_def)

lemma edges_on_mono: "set rem' \<subseteq> set rem \<Longrightarrow> edges_on its rem' \<subseteq> edges_on its rem"
  by (auto simp: edges_on_def)

lemma edges_on_keys: "edges_on its (map key its) = edges its"
  using edge_keys [of its] by (auto simp: edges_on_def edges_def)

lemma wf_edges_on: "acyclic (edges its) \<Longrightarrow> wf (edges_on its rem)"
proof -
  assume "acyclic (edges its)"
  then have "acyclic (edges_on its rem)"
    using edges_on_subset by (rule acyclic_subset)
  moreover have "edges_on its rem \<subseteq> set rem \<times> set rem"
    by (auto simp: edges_on_def)
  then have "finite (edges_on its rem)"
    by (rule finite_subset) simp
  ultimately show ?thesis
    by (simp add: finite_acyclic_wf)
qed

lemma ready_ancestor:
  assumes acyc: "acyclic (edges its)" and x: "x \<in> set rem"
  shows "\<exists>z \<in> set rem. ready its rem z \<and> (z, x) \<in> (edges_on its rem)\<^sup>*"
proof -
  define A where "A = {z \<in> set rem. (z, x) \<in> (edges_on its rem)\<^sup>*}"
  from x have "x \<in> A" by (simp add: A_def)
  moreover from wf_edges_on [OF acyc, of rem]
  have "\<forall>Q a. a \<in> Q \<longrightarrow> (\<exists>z \<in> Q. \<forall>u. (u, z) \<in> edges_on its rem \<longrightarrow> u \<notin> Q)"
    unfolding wf_eq_minimal .
  ultimately have "\<exists>z \<in> A. \<forall>u. (u, z) \<in> edges_on its rem \<longrightarrow> u \<notin> A"
    by blast
  then obtain z where zA: "z \<in> A" and least: "\<And>u. (u, z) \<in> edges_on its rem \<Longrightarrow> u \<notin> A"
    by blast
  from zA have z: "z \<in> set rem" "(z, x) \<in> (edges_on its rem)\<^sup>*"
    by (simp_all add: A_def)
  have "ready its rem z"
    unfolding ready_def
  proof
    fix u assume u: "u \<in> set rem"
    show "\<not> edge its u z"
    proof
      assume "edge its u z"
      with u z(1) have e: "(u, z) \<in> edges_on its rem"
        by (simp add: edges_on_def)
      then have "(u, x) \<in> (edges_on its rem)\<^sup>*"
        using z(2) by (rule converse_rtrancl_into_rtrancl)
      with u have "u \<in> A" by (simp add: A_def)
      with least [OF e] show False by blast
    qed
  qed
  with z show ?thesis by blast
qed

lemma kahn_stable:
  "kahn its rem = Inr ord \<Longrightarrow> distinct rem \<Longrightarrow> acyclic (edges its) \<Longrightarrow>
   precedes x y rem \<Longrightarrow>
   (\<forall>z. (z, x) \<in> (edges_on its rem)\<^sup>+ \<longrightarrow> precedes z y rem) \<Longrightarrow>
   precedes x y ord"
proof (induction its rem arbitrary: ord rule: kahn.induct)
  case (1 its)
  then show ?case by simp
next
  case (2 its r rem)
  let ?L = "r # rem"
  from "2.prems"(1) obtain v ord' where
    v: "find (ready its ?L) ?L = Some v"
    and rec: "kahn its (remove1 v ?L) = Inr ord'" and ord: "ord = v # ord'"
    by (rule kahn_Inr_cases)
  note dist = "2.prems"(2) and acyc = "2.prems"(3) and xy = "2.prems"(4)
    and anc = "2.prems"(5)
  from precedes_in_set [OF xy] have in_L: "x \<in> set ?L" "y \<in> set ?L"
    by blast+
  from xy dist have neq: "x \<noteq> y" by (rule precedes_neq)
  from kahn_sound [OF rec distinct_remove1 [OF dist]]
  have "set ord' = set (remove1 v ?L)"
    by blast
  then have set_ord': "set ord' = set ?L - {v}"
    by (simp only: set_remove1_eq [OF dist])
  have "v \<noteq> y"
  proof
    assume "v = y"
    from ready_ancestor [OF acyc in_L(1)] obtain z where
      z: "ready its ?L z" "(z, x) \<in> (edges_on its ?L)\<^sup>*"
      by blast
    from z(2) have "z = x \<or> (z, x) \<in> (edges_on its ?L)\<^sup>+"
      by (auto simp: rtrancl_eq_or_trancl)
    with xy anc have "precedes z y ?L" by blast
    moreover from v \<open>v = y\<close> have "find (ready its ?L) ?L = Some y"
      by (simp only:)
    ultimately have "\<not> ready its ?L z"
      using dist find_is_first [of "ready its ?L" ?L y z] by blast
    with z(1) show False by blast
  qed
  show ?case
  proof (cases "v = x")
    case True
    with in_L(2) neq set_ord' show ?thesis by (simp add: ord)
  next
    case False
    from xy False \<open>v \<noteq> y\<close> have xy': "precedes x y (remove1 v ?L)"
      by (simp add: precedes_remove1 del: remove1.simps)
    have anc': "\<forall>z. (z, x) \<in> (edges_on its (remove1 v ?L))\<^sup>+ \<longrightarrow> precedes z y (remove1 v ?L)"
    proof (intro allI impI)
      fix z assume z: "(z, x) \<in> (edges_on its (remove1 v ?L))\<^sup>+"
      have sub: "edges_on its (remove1 v ?L) \<subseteq> edges_on its ?L"
        using set_remove1_subset by (rule edges_on_mono)
      from z have "(z, x) \<in> (edges_on its ?L)\<^sup>+"
        using trancl_mono [OF _ sub] by blast
      with anc have p: "precedes z y ?L" by blast
      from tranclD [OF z] obtain w where "(z, w) \<in> edges_on its (remove1 v ?L)"
        by blast
      then have "z \<in> set (remove1 v ?L)"
        unfolding edges_on_def by blast
      with dist have "v \<noteq> z"
        using set_remove1_eq [OF dist] by blast
      with p \<open>v \<noteq> y\<close> show "precedes z y (remove1 v ?L)"
        by (simp add: precedes_remove1 del: remove1.simps)
    qed
    from "2.IH" [OF v rec distinct_remove1 [OF dist] acyc xy' anc']
    have "precedes x y ord'" .
    with False show ?thesis by (simp add: ord)
  qed
qed

lemma no_order_keeps_unrelated_pairs:
  "\<not> (\<exists>ord. distinct ord \<and> precedes c a ord \<and> precedes a b ord \<and> precedes b c ord)"
proof
  assume "\<exists>ord. distinct ord \<and> precedes c a ord \<and> precedes a b ord \<and> precedes b c ord"
  then obtain ord where d: "distinct ord"
    and p: "precedes c a ord" "precedes a b ord" "precedes b c ord"
    by blast
  from precedes_pos [OF p(1) d] precedes_pos [OF p(2) d] precedes_pos [OF p(3) d]
  show False by simp
qed

text \<open>
  Claim C5, as stated, fails. Register \<open>a\<close>, \<open>b\<close>, \<open>c\<close> in this order, \<open>c\<close> with
  "before \<open>a\<close>". Neither of \<open>a\<close> and \<open>b\<close> is constrained against the other, directly
  or transitively, and \<open>a\<close> was registered first, yet the resolved order is
  \<open>[b, c, a]\<close>. No resolution could do better here: \<open>c\<close> has to precede \<open>a\<close>, and
  keeping both unconstrained pairs \<open>(a, b)\<close> and \<open>(b, c)\<close> in registration order would
  close a circle (\<open>no_order_keeps_unrelated_pairs\<close>).
\<close>

theorem registration_order_counterexample:
  "resolve [\<lparr>key = ''a'', before = [], after = []\<rparr>,
            \<lparr>key = ''b'', before = [], after = []\<rparr>,
            \<lparr>key = ''c'', before = [''a''], after = []\<rparr>] = Inr [''b'', ''c'', ''a'']
   \<and> (''a'', ''b'') \<notin> (edges [\<lparr>key = ''a'', before = [], after = []\<rparr>,
            \<lparr>key = ''b'', before = [], after = []\<rparr>,
            \<lparr>key = ''c'', before = [''a''], after = []\<rparr>])\<^sup>+
   \<and> (''b'', ''a'') \<notin> (edges [\<lparr>key = ''a'', before = [], after = []\<rparr>,
            \<lparr>key = ''b'', before = [], after = []\<rparr>,
            \<lparr>key = ''c'', before = [''a''], after = []\<rparr>])\<^sup>+
   \<and> precedes ''a'' ''b'' (map key [\<lparr>key = ''a'', before = [], after = []\<rparr>,
            \<lparr>key = ''b'', before = [], after = []\<rparr>,
            \<lparr>key = ''c'', before = [''a''], after = []\<rparr>])
   \<and> precedes ''b'' ''a'' [''b'', ''c'', ''a'']
   \<and> \<not> precedes ''a'' ''b'' [''b'', ''c'', ''a'']"
proof -
  let ?its = "[\<lparr>key = ''a'', before = [], after = []\<rparr>,
            \<lparr>key = ''b'', before = [], after = []\<rparr>,
            \<lparr>key = ''c'', before = [''a''], after = []\<rparr>]"
  have r: "resolve ?its = Inr [''b'', ''c'', ''a'']"
    by code_simp
  have e: "edges ?its = {(''c'', ''a'')}"
    by (auto simp: edges_def edge_def)
  have t: "(''a'', ''b'') \<notin> (edges ?its)\<^sup>+" "(''b'', ''a'') \<notin> (edges ?its)\<^sup>+"
    unfolding e by (simp_all add: trancl_insert)
  have p: "precedes ''a'' ''b'' (map key ?its)" "precedes ''b'' ''a'' [''b'', ''c'', ''a'']"
    "\<not> precedes ''a'' ''b'' [''b'', ''c'', ''a'']"
    by simp_all
  from r t p show ?thesis by blast
qed

lemma unconstrained_no_edge:
  "unconstrained its x \<Longrightarrow> \<not> edge its u x \<and> \<not> edge its x u"
  unfolding unconstrained_def edge_def by fastforce

text \<open>
  Claim C5, amended. In a collection with distinct keys and an acyclic graph, for every
  pair of unconstrained items (items that declare no before/after constraint and that no
  item of the collection names in one), the resolved order preserves their relative
  registration order. Three unconstrained tasks \<open>a\<close>, \<open>b\<close>, \<open>c\<close> registered in this
  order resolve to \<open>[a, b, c]\<close>, and removing \<open>b\<close> and registering it again yields
  \<open>[a, c, b]\<close>.
\<close>

theorem registration_order_kept:
  "(distinct (map key its) \<and> acyclic (edges its) \<and> precedes x y (map key its)
      \<and> unconstrained its x \<and> unconstrained its y
     \<longrightarrow> (\<exists>ord. resolve its = Inr ord \<and> precedes x y ord))
   \<and> (\<exists>d. create_items [(''a'', [], []), (''b'', [], []), (''c'', [], [])] empty_dag = Inr d
          \<and> fst (resolvedOrder d) = Inr [''a'', ''b'', ''c'']
          \<and> (\<exists>d'. create_item ''b'' [] [] (remove_item ''b'' (snd (resolvedOrder d))) = Inr d'
                 \<and> fst (resolvedOrder d') = Inr [''a'', ''c'', ''b'']))"
proof (intro conjI impI)
  assume h: "distinct (map key its) \<and> acyclic (edges its) \<and> precedes x y (map key its)
      \<and> unconstrained its x \<and> unconstrained its y"
  from kahn_complete [of its "map key its"] h obtain ord
    where ord: "kahn its (map key its) = Inr ord"
    by blast
  have "\<forall>z. (z, x) \<in> (edges_on its (map key its))\<^sup>+ \<longrightarrow> precedes z y (map key its)"
  proof (intro allI impI)
    fix z assume "(z, x) \<in> (edges_on its (map key its))\<^sup>+"
    then obtain u where "(u, x) \<in> edges_on its (map key its)"
      by (meson tranclD2)
    then have "edge its u x"
      by (simp add: edges_on_def)
    with h unconstrained_no_edge [of its x u] show "precedes z y (map key its)"
      by blast
  qed
  with kahn_stable [OF ord, of x y] h have "precedes x y ord"
    by blast
  with ord show "\<exists>ord. resolve its = Inr ord \<and> precedes x y ord"
    by (simp add: resolve_def)
next
  let ?a = "\<lparr>key = ''a'', before = [], after = []\<rparr>"
  let ?b = "\<lparr>key = ''b'', before = [], after = []\<rparr>"
  let ?c = "\<lparr>key = ''c'', before = [], after = []\<rparr>"
  let ?d = "\<lparr>items = [?a, ?b, ?c], cachedOrder = [], dirty = True\<rparr>"
  let ?d' = "\<lparr>items = [?a, ?c, ?b], cachedOrder = [''a'', ''b'', ''c''], dirty = True\<rparr>"
  have r1: "resolve [?a, ?b, ?c] = Inr [''a'', ''b'', ''c'']"
    by code_simp
  have r2: "resolve [?a, ?c, ?b] = Inr [''a'', ''c'', ''b'']"
    by code_simp
  have 1: "create_items [(''a'', [], []), (''b'', [], []), (''c'', [], [])] empty_dag = Inr ?d"
    by (simp add: create_item_def empty_dag_def)
  have 2: "resolvedOrder ?d = (Inr [''a'', ''b'', ''c''],
      \<lparr>items = [?a, ?b, ?c], cachedOrder = [''a'', ''b'', ''c''], dirty = False\<rparr>)"
    by (simp add: resolvedOrder_def r1)
  have 3: "create_item ''b'' [] [] (remove_item ''b'' (snd (resolvedOrder ?d))) = Inr ?d'"
    by (simp add: 2 create_item_def remove_item_def)
  have 4: "fst (resolvedOrder ?d') = Inr [''a'', ''c'', ''b'']"
    by (simp add: resolvedOrder_def r2)
  from 1 2 3 4
  show "\<exists>d. create_items [(''a'', [], []), (''b'', [], []), (''c'', [], [])] empty_dag = Inr d
          \<and> fst (resolvedOrder d) = Inr [''a'', ''b'', ''c'']
          \<and> (\<exists>d'. create_item ''b'' [] [] (remove_item ''b'' (snd (resolvedOrder d))) = Inr d'
                 \<and> fst (resolvedOrder d') = Inr [''a'', ''c'', ''b''])"
    by (intro exI [of _ ?d] conjI exI [of _ ?d']) simp_all
qed

theorem registration_order_kept_witness:
  "\<exists>ord. resolve [\<lparr>key = ''a'', before = [], after = []\<rparr>,
                   \<lparr>key = ''b'', before = [], after = [''c'']\<rparr>,
                   \<lparr>key = ''c'', before = [], after = []\<rparr>,
                   \<lparr>key = ''d'', before = [], after = []\<rparr>] = Inr ord
         \<and> precedes ''a'' ''d'' ord"
proof -
  let ?its = "[\<lparr>key = ''a'', before = [], after = []\<rparr>,
               \<lparr>key = ''b'', before = [], after = [''c'']\<rparr>,
               \<lparr>key = ''c'', before = [], after = []\<rparr>,
               \<lparr>key = ''d'', before = [], after = []\<rparr>]"
  have e: "edges ?its = {(''c'', ''b'')}"
    by (auto simp: edges_def edge_def)
  have d: "distinct (map key ?its)" by simp
  have "acyclic {}"
    by (simp add: acyclic_def)
  then have a: "acyclic (edges ?its)"
    unfolding e by simp
  have p: "precedes ''a'' ''d'' (map key ?its)" by simp
  have u: "unconstrained ?its ''a''" "unconstrained ?its ''d''"
    by (simp_all add: unconstrained_def)
  from registration_order_kept [where its = ?its and x = "''a''" and y = "''d''"] d a p u
  show ?thesis by blast
qed

end
